theory Spec2Isabelle
  imports Complex_Main "HOL-Library.Multiset"
begin

section \<open>JavaScript values as the sources use them\<close>

text \<open>
  A JavaScript number is a double: a finite number, one of the two infinities, or NaN.
  A finite double is a real of the form \<open>m * 2 ^ e\<close> with \<open>\<bar>m\<bar> < 2 ^ 53\<close> and
  \<open>- 1074 \<le> e \<le> 971\<close>. The sign of zero is not modelled.
\<close>

datatype jsnum = Fin real | PosInf | NegInf | NaN

text \<open>
  \<open>Fin x\<close> is a number of the language when \<open>x\<close> is a double; \<open>to_double\<close> gives
  the number any real is rounded to.
  Every arithmetic operation computes the exact result and rounds it to the nearest
  double, to the one with an even significand when two are equally near; a result whose
  rounded magnitude reaches \<open>2 ^ 1024\<close> is an infinity. \<open>binary_digits n\<close> is the
  number of binary digits of \<open>n\<close>, \<open>floor_log2 x\<close> the exponent of the greatest power
  of two that is at most \<open>x\<close> (for \<open>x > 0\<close>), and the unit of the last place of a double
  of that size is \<open>2 ^ (floor_log2 x - 52)\<close>, never below \<open>2 ^ - 1074\<close>.
\<close>

fun binary_digits :: "nat \<Rightarrow> nat" where
  "binary_digits n = (if n = 0 then 0 else Suc (binary_digits (n div 2)))"

declare binary_digits.simps [simp del]

definition floor_log2 :: "real \<Rightarrow> int" where
  "floor_log2 x =
     (if 1 \<le> x then int (binary_digits (nat \<lfloor>x\<rfloor>)) - 1
      else - int (binary_digits (nat (\<lceil>1 / x\<rceil> - 1))))"

definition pow2 :: "int \<Rightarrow> real" where
  "pow2 e = (if 0 \<le> e then 2 ^ nat e else 1 / 2 ^ nat (- e))"

definition round_half_even :: "real \<Rightarrow> int" where
  "round_half_even y =
     (let f = \<lfloor>y\<rfloor> in
      if y - of_int f < 1 / 2 then f
      else if 1 / 2 < y - of_int f then f + 1
      else if even f then f else f + 1)"

definition to_double :: "real \<Rightarrow> jsnum" where
  "to_double x =
     (if x = 0 then Fin 0
      else let e = max (floor_log2 \<bar>x\<bar> - 52) (- 1074);
               r = of_int (round_half_even (x / pow2 e)) * pow2 e
           in if 2 ^ 1024 \<le> \<bar>r\<bar> then (if 0 < x then PosInf else NegInf) else Fin r)"

text \<open>
  The primitive values an attribute of a row can hold. Objects (dates, buffers, nested
  JSON) are outside the model.
\<close>

datatype jsval = Undefined | Null | Bool bool | Number jsnum | Str string

text \<open>The operator \<open>+\<close> on two numbers.\<close>

fun num_add :: "jsnum \<Rightarrow> jsnum \<Rightarrow> jsnum" where
  "num_add NaN b = NaN"
| "num_add a NaN = NaN"
| "num_add PosInf NegInf = NaN"
| "num_add NegInf PosInf = NaN"
| "num_add PosInf b = PosInf"
| "num_add a PosInf = PosInf"
| "num_add NegInf b = NegInf"
| "num_add a NegInf = NegInf"
| "num_add (Fin a) (Fin b) = to_double (a + b)"

text \<open>
  The operator \<open>/\<close> with a positive integer on the right, which is the only way the
  collection divides (\<open>this.sum(key) / this.length\<close> behind the emptiness guard; the
  length of an array is below \<open>2 ^ 32\<close> and so a double).
\<close>

fun num_div_pos :: "jsnum \<Rightarrow> nat \<Rightarrow> jsnum" where
  "num_div_pos (Fin a) n = to_double (a / real n)"
| "num_div_pos PosInf n = PosInf"
| "num_div_pos NegInf n = NegInf"
| "num_div_pos NaN n = NaN"

text \<open>The relation \<open><\<close> on two numbers: false as soon as one side is NaN.\<close>

fun num_lt :: "jsnum \<Rightarrow> jsnum \<Rightarrow> bool" where
  "num_lt NaN b = False"
| "num_lt a NaN = False"
| "num_lt (Fin a) (Fin b) = (a < b)"
| "num_lt (Fin a) PosInf = True"
| "num_lt NegInf (Fin b) = True"
| "num_lt NegInf PosInf = True"
| "num_lt a b = False"

text \<open>\<open>Math.min\<close> and \<open>Math.max\<close> over an argument list: NaN as soon as one argument is.\<close>

definition Math_min2 :: "jsnum \<Rightarrow> jsnum \<Rightarrow> jsnum" where
  "Math_min2 a b = (if a = NaN \<or> b = NaN then NaN else if num_lt b a then b else a)"

definition Math_max2 :: "jsnum \<Rightarrow> jsnum \<Rightarrow> jsnum" where
  "Math_max2 a b = (if a = NaN \<or> b = NaN then NaN else if num_lt a b then b else a)"

definition Math_min :: "jsnum list \<Rightarrow> jsnum" where
  "Math_min xs = foldl Math_min2 PosInf xs"

definition Math_max :: "jsnum list \<Rightarrow> jsnum" where
  "Math_max xs = foldl Math_max2 NegInf xs"

subsection \<open>ToBoolean and ToNumber\<close>

definition truthy :: "jsval \<Rightarrow> bool" where
  "truthy v = (case v of
      Undefined \<Rightarrow> False
    | Null \<Rightarrow> False
    | Bool b \<Rightarrow> b
    | Number n \<Rightarrow> n \<noteq> Fin 0 \<and> n \<noteq> NaN
    | Str s \<Rightarrow> s \<noteq> [])"

text \<open>The expression \<open>v || 0\<close>.\<close>

definition or_zero :: "jsval \<Rightarrow> jsval" where
  "or_zero v = (if truthy v then v else Number (Fin 0))"

text \<open>
  StringToNumber of the language: white space is trimmed, the empty string is 0, then a
  binary, octal or hexadecimal integer literal, or an optionally signed decimal literal
  or \<open>Infinity\<close>; anything else is NaN. The value of a literal is rounded to a double.
  A string is read as its code units below 256.
\<close>

definition is_ws :: "char \<Rightarrow> bool" where
  "is_ws c = ((of_char c :: nat) \<in> set [9, 10, 11, 12, 13, 32, 160])"

definition trim :: "string \<Rightarrow> string" where
  "trim s = rev (dropWhile is_ws (rev (dropWhile is_ws s)))"

definition digit_of :: "char \<Rightarrow> nat option" where
  "digit_of c = (let n = (of_char c :: nat) in
     if 48 \<le> n \<and> n \<le> 57 then Some (n - 48)
     else if 97 \<le> n \<and> n \<le> 102 then Some (n - 87)
     else if 65 \<le> n \<and> n \<le> 70 then Some (n - 55)
     else None)"

definition is_digit :: "nat \<Rightarrow> char \<Rightarrow> bool" where
  "is_digit base c = (case digit_of c of None \<Rightarrow> False | Some d \<Rightarrow> d < base)"

definition all_digits :: "nat \<Rightarrow> string \<Rightarrow> bool" where
  "all_digits base s = (s \<noteq> [] \<and> list_all (is_digit base) s)"

definition digits_val :: "nat \<Rightarrow> string \<Rightarrow> nat" where
  "digits_val base s = foldl (\<lambda>a c. base * a + (case digit_of c of None \<Rightarrow> 0 | Some d \<Rightarrow> d)) 0 s"

definition non_decimal :: "string \<Rightarrow> nat option" where
  "non_decimal s = (case s of
      z # p # ds \<Rightarrow>
        if z \<noteq> CHR ''0'' then None
        else if (p = CHR ''x'' \<or> p = CHR ''X'') \<and> all_digits 16 ds then Some (digits_val 16 ds)
        else if (p = CHR ''o'' \<or> p = CHR ''O'') \<and> all_digits 8 ds then Some (digits_val 8 ds)
        else if (p = CHR ''b'' \<or> p = CHR ''B'') \<and> all_digits 2 ds then Some (digits_val 2 ds)
        else None
    | _ \<Rightarrow> None)"

definition is_exp_mark :: "char \<Rightarrow> bool" where
  "is_exp_mark c = (c = CHR ''e'' \<or> c = CHR ''E'')"

text \<open>The exponent part after the mantissa: nothing, or \<open>e\<close>, an optional sign and digits.\<close>

definition exponent_part :: "string \<Rightarrow> int option" where
  "exponent_part r = (case r of
      [] \<Rightarrow> Some 0
    | e # ds \<Rightarrow>
        (case ds of
           [] \<Rightarrow> None
         | c # ds' \<Rightarrow>
             if c = CHR ''-'' then (if all_digits 10 ds' then Some (- int (digits_val 10 ds')) else None)
             else if c = CHR ''+'' then (if all_digits 10 ds' then Some (int (digits_val 10 ds')) else None)
             else if all_digits 10 ds then Some (int (digits_val 10 ds)) else None))"

text \<open>The mantissa: digits, digits with a fraction, or a fraction alone; as (digits, scale).\<close>

definition mantissa_part :: "string \<Rightarrow> (nat \<times> nat) option" where
  "mantissa_part m = (let ip = takeWhile (\<lambda>c. c \<noteq> CHR ''.'') m; fp' = dropWhile (\<lambda>c. c \<noteq> CHR ''.'') m in
     if fp' = [] then (if all_digits 10 ip then Some (digits_val 10 ip, 0) else None)
     else let fp = tl fp' in
       if (ip = [] \<or> all_digits 10 ip) \<and> (fp = [] \<or> all_digits 10 fp) \<and> (ip \<noteq> [] \<or> fp \<noteq> [])
       then Some (digits_val 10 (ip @ fp), length fp)
       else None)"

definition scale10 :: "nat \<Rightarrow> int \<Rightarrow> real" where
  "scale10 m e = (if 0 \<le> e then real m * 10 ^ nat e else real m / 10 ^ nat (- e))"

definition unsigned_decimal :: "string \<Rightarrow> jsnum" where
  "unsigned_decimal s =
     (if s = ''Infinity'' then PosInf
      else case (mantissa_part (takeWhile (\<lambda>c. \<not> is_exp_mark c) s),
                 exponent_part (dropWhile (\<lambda>c. \<not> is_exp_mark c) s)) of
          (Some (m, k), Some e) \<Rightarrow> to_double (scale10 m (e - int k))
        | _ \<Rightarrow> NaN)"

definition num_neg :: "jsnum \<Rightarrow> jsnum" where
  "num_neg n = (case n of Fin a \<Rightarrow> Fin (- a) | PosInf \<Rightarrow> NegInf | NegInf \<Rightarrow> PosInf | NaN \<Rightarrow> NaN)"

definition StringToNumber :: "string \<Rightarrow> jsnum" where
  "StringToNumber s = (let t = trim s in
     case t of
       [] \<Rightarrow> Fin 0
     | c # r \<Rightarrow>
        (case non_decimal t of
           Some n \<Rightarrow> to_double (real n)
         | None \<Rightarrow>
             if c = CHR ''+'' then unsigned_decimal r
             else if c = CHR ''-'' then num_neg (unsigned_decimal r)
             else unsigned_decimal t))"

text \<open>The function \<open>Number(v)\<close>.\<close>

definition ToNumber :: "jsval \<Rightarrow> jsnum" where
  "ToNumber v = (case v of
      Undefined \<Rightarrow> NaN
    | Null \<Rightarrow> Fin 0
    | Bool b \<Rightarrow> (if b then Fin 1 else Fin 0)
    | Number n \<Rightarrow> n
    | Str s \<Rightarrow> StringToNumber s)"

section \<open>Model records\<close>

text \<open>
  A plain object is its own properties in insertion order, each key once. A raw row of a
  result set is such an object.
\<close>

type_synonym js_object = "(string \<times> jsval) list"

text \<open>
  Modelled from the spec: the class \<open>Ensemble\<close> (Ensemble.ts is not among the sources).
  The spec gives a Model Record the fields \<open>attributes\<close>, \<open>original\<close>, \<open>exists\<close>,
  \<open>table\<close> and \<open>primaryKeyName\<close>; \<open>model_class\<close> stands for the instance's constructor.
\<close>

record ensemble =
  model_class :: string
  table :: string
  primaryKeyName :: string
  attributes :: js_object
  original :: js_object
  exists :: bool

text \<open>
  A record class whose property read \<open>item[key]\<close> gives the attribute of that name,
  \<open>undefined\<close> when the record has none: the reader of the examples.
\<close>

definition getProp :: "ensemble \<Rightarrow> string \<Rightarrow> jsval" where
  "getProp item k = (case map_of (attributes item) k of None \<Rightarrow> Undefined | Some v \<Rightarrow> v)"

text \<open>
  A record class whose objects carry their flag \<open>exists\<close> as a member of their own:
  that key reads the flag, any other key the attribute.
\<close>

definition read_member :: "ensemble \<Rightarrow> string \<Rightarrow> jsval" where
  "read_member item k = (if k = ''exists'' then Bool (exists item) else getProp item k)"

section \<open>EnsembleCollection: the numeric aggregates\<close>

text \<open>
  A collection is an array of records of a class \<open>T\<close> that extends \<open>Ensemble\<close>. The
  class of the records is not among the sources (Ensemble.ts), so what \<open>item[key]\<close>
  reads on a record (an attribute, or a member of the record object when the key names
  one) is the parameter \<open>read\<close> of the operations; the value read is a primitive. The
  optional parameter \<open>key\<close> is \<open>None\<close> when the caller leaves it out; \<open>!key\<close> also
  holds for the empty string.
\<close>

definition isEmpty :: "'a list \<Rightarrow> bool" where
  "isEmpty this = (length this = 0)"

definition no_key :: "string option \<Rightarrow> bool" where
  "no_key key = (case key of None \<Rightarrow> True | Some k \<Rightarrow> k = [])"

definition item_number :: "('a \<Rightarrow> string \<Rightarrow> jsval) \<Rightarrow> string option \<Rightarrow> 'a \<Rightarrow> jsnum" where
  "item_number read key item = (case key of
      None \<Rightarrow> ToNumber (or_zero Undefined)
    | Some k \<Rightarrow> ToNumber (or_zero (read item k)))"

definition sum_coll :: "('a \<Rightarrow> string \<Rightarrow> jsval) \<Rightarrow> 'a list \<Rightarrow> string option \<Rightarrow> jsnum" where
  "sum_coll read this key =
     (if no_key key then Fin 0
      else foldl (\<lambda>sum item. num_add sum (item_number read key item)) (Fin 0) this)"

definition avg :: "('a \<Rightarrow> string \<Rightarrow> jsval) \<Rightarrow> 'a list \<Rightarrow> string option \<Rightarrow> jsnum" where
  "avg read this key =
     (if isEmpty this then Fin 0
      else num_div_pos (sum_coll read this key) (length this))"

text \<open>
  \<open>this.map(callback)\<close> on a collection. \<open>Array.prototype.map\<close> creates its result
  with the constructor of the receiver's class, called with the length:
  \<open>new EnsembleCollection(length)\<close>. The constructor spreads its argument
  (\<open>super(...items)\<close>), and a number is not iterable: a TypeError, before the callback
  is called once. Given an array of records the constructor returns a collection of them.
\<close>

datatype js_error = TypeError

datatype 'a constructor_argument = Items "'a list" | Length nat

definition new_EnsembleCollection :: "'a constructor_argument \<Rightarrow> js_error + 'a list" where
  "new_EnsembleCollection items =
     (case items of Items xs \<Rightarrow> Inr xs | Length n \<Rightarrow> Inl TypeError)"

definition map_coll :: "('a \<Rightarrow> 'b) \<Rightarrow> 'a list \<Rightarrow> js_error + 'b list" where
  "map_coll callback this =
     (case new_EnsembleCollection (Length (length this) :: 'b constructor_argument) of
        Inl err \<Rightarrow> Inl err
      | Inr target \<Rightarrow> Inr (map callback this))"

definition min_coll :: "('a \<Rightarrow> string \<Rightarrow> jsval) \<Rightarrow> 'a list \<Rightarrow> string option \<Rightarrow> js_error + jsnum option" where
  "min_coll read this key =
     (if isEmpty this \<or> no_key key then Inr None
      else case map_coll (item_number read key) this of
             Inl err \<Rightarrow> Inl err
           | Inr numbers \<Rightarrow> Inr (Some (Math_min numbers)))"

definition max_coll :: "('a \<Rightarrow> string \<Rightarrow> jsval) \<Rightarrow> 'a list \<Rightarrow> string option \<Rightarrow> js_error + jsnum option" where
  "max_coll read this key =
     (if isEmpty this \<or> no_key key then Inr None
      else case map_coll (item_number read key) this of
             Inl err \<Rightarrow> Inl err
           | Inr numbers \<Rightarrow> Inr (Some (Math_max numbers)))"

text \<open>
  What a value counts in \<open>sum\<close> and \<open>avg\<close>, by its type: \<open>undefined\<close> (so also a
  missing value), \<open>null\<close> and NaN count 0, any other number counts itself, \<open>false\<close>
  counts 0 and \<open>true\<close> counts 1, and a string counts the number \<open>Number\<close> reads in
  it (0 in the empty string). And the sum of a list of numbers, added as doubles from 0
  in the order of the list.
\<close>

definition counted :: "jsval \<Rightarrow> jsnum" where
  "counted v = (case v of
      Undefined \<Rightarrow> Fin 0
    | Null \<Rightarrow> Fin 0
    | Bool b \<Rightarrow> (if b then Fin 1 else Fin 0)
    | Number n \<Rightarrow> (if n = NaN then Fin 0 else n)
    | Str s \<Rightarrow> StringToNumber s)"

definition sum_of :: "jsnum list \<Rightarrow> jsnum" where
  "sum_of ns = foldl num_add (Fin 0) ns"

text \<open>
  A value read as the spec words it for \<open>sum\<close> and \<open>avg\<close>: a number counts itself,
  any other value (missing or not numeric) is coerced to 0.
\<close>

definition coerced_to_zero :: "jsval \<Rightarrow> jsnum" where
  "coerced_to_zero v = (case v of Number n \<Rightarrow> (if n = NaN then Fin 0 else n) | _ \<Rightarrow> Fin 0)"

text \<open>The real a finite number stands for; 0 for the others.\<close>

definition real_of :: "jsnum \<Rightarrow> real" where
  "real_of n = (case n of Fin a \<Rightarrow> a | _ \<Rightarrow> 0)"

definition is_integer :: "jsnum \<Rightarrow> bool" where
  "is_integer n = (case n of Fin a \<Rightarrow> a = of_int \<lfloor>a\<rfloor> | _ \<Rightarrow> False)"

text \<open>A record of a model class \<open>Product\<close> as loaded from a row, for the examples.\<close>

definition product :: "js_object \<Rightarrow> ensemble" where
  "product row = \<lparr>model_class = ''Product'', table = ''products'', primaryKeyName = ''id'',
     attributes = row, original = row, exists = True\<rparr>"

text \<open>
  Products whose prices are a number, missing, \<open>null\<close>, a numeric string and \<open>true\<close>;
  and two products priced at the doubles nearest to 0.1 and 0.2.
\<close>

definition mixed_products :: "ensemble list" where
  "mixed_products =
     [product [(''price'', Number (Fin 5))], product [(''id'', Number (Fin 2))],
      product [(''price'', Null)], product [(''price'', Str ''4'')],
      product [(''price'', Bool True)]]"

definition tenths :: "ensemble list" where
  "tenths =
     [product [(''price'', Number (Fin (3602879701896397 / 2 ^ 55)))],
      product [(''price'', Number (Fin (3602879701896397 / 2 ^ 54)))]]"

text \<open>The sum as the spec words it: every value that is not a number coerced to 0.\<close>

definition claimed_sum :: "('a \<Rightarrow> string \<Rightarrow> jsval) \<Rightarrow> 'a list \<Rightarrow> string \<Rightarrow> jsnum" where
  "claimed_sum read this k = sum_of (map (\<lambda>item. coerced_to_zero (read item k)) this)"

section \<open>EnsembleBuilder: hydration\<close>

text \<open>
  Modelled from the spec: the constructor of a model class (Ensemble.ts is not among the
  sources). \<open>new ModelClass(attributes)\<close> gives a record of the class of the bound
  model, with its table and key name, holding the attributes supplied; it is not yet
  stored and has no baseline.
\<close>

definition new_ModelClass :: "ensemble \<Rightarrow> js_object \<Rightarrow> ensemble" where
  "new_ModelClass model attrs =
     \<lparr>model_class = model_class model, table = table model,
      primaryKeyName = primaryKeyName model,
      attributes = attrs, original = [], exists = False\<rparr>"

text \<open>
  Modelled from the spec: \<open>syncOriginal\<close> (Ensemble.ts) sets the baseline snapshot to
  the attributes just loaded.
\<close>

definition syncOriginal :: "ensemble \<Rightarrow> ensemble" where
  "syncOriginal instance = instance\<lparr>original := attributes instance\<rparr>"

definition newModelInstance :: "ensemble \<Rightarrow> js_object \<Rightarrow> bool \<Rightarrow> ensemble" where
  "newModelInstance model attrs ex =
     (let instance = new_ModelClass model attrs;
          instance = instance\<lparr>exists := ex\<rparr>
      in syncOriginal instance)"

definition hydrate :: "ensemble \<Rightarrow> js_object list \<Rightarrow> ensemble list" where
  "hydrate model items = map (\<lambda>item. newModelInstance model item True) items"






section \<open>Query state and the store of builders\<close>

text \<open>
  The clause types of Contracts/QueryBuilderInterface.ts. A having clause is not declared
  there; the spec gives \<open>having(column, operator, value)\<close>.
\<close>

datatype connective = LinkAnd | LinkOr

datatype where_clause =
  WhereClause (wc_column: string) (wc_operator: string) (wc_value: jsval) (wc_boolean: connective)

datatype join_type = InnerJoin | LeftJoin | RightJoin | CrossJoin

datatype join_clause =
  JoinClause (jc_type: join_type) (jc_table: string) (jc_first: string)
    (jc_operator: "string option") (jc_second: "string option")

datatype order_direction = Asc | Desc

datatype order_clause = OrderByClause (oc_column: string) (oc_direction: order_direction)

datatype having_clause = HavingClause (hc_column: string) (hc_operator: string) (hc_value: jsval)

text \<open>
  A builder object holds references to its arrays and to its \<open>eagerLoad\<close> object, and
  its scalar fields by value (the fields \<open>_columns\<close>, \<open>_distinct\<close>, \<open>_table\<close>,
  \<open>_wheres\<close>, \<open>_joins\<close>, \<open>_orders\<close>, \<open>_groups\<close>, \<open>_havings\<close>, \<open>_limit\<close>,
  \<open>_offset\<close>, \<open>_bindings\<close>, \<open>eagerLoad\<close>, \<open>model\<close> and \<open>adapter\<close> of the source).
  An adapter is known by its identity only.
\<close>

type_synonym addr = nat

record builder =
  b_adapter :: nat
  b_model :: ensemble
  b_columns :: addr
  b_distinct :: bool
  b_table :: string
  b_wheres :: addr
  b_joins :: addr
  b_orders :: addr
  b_groups :: addr
  b_havings :: addr
  b_limit :: "int option"
  b_offset :: "int option"
  b_bindings :: addr
  b_eagerLoad :: addr

text \<open>The value \<open>() => {}\<close> that \<open>with\<close> registers for a relation.\<close>

datatype loader = Noop

text \<open>
  The store: every array, plain object and builder is a cell at an address, and \<open>new\<close>,
  an array literal and a spread take the next free address. Two references alias when
  they are the same address.
\<close>

datatype cell =
    StrArray (the_strings: "string list")
  | WhereArray (the_wheres: "where_clause list")
  | JoinArray (the_joins: "join_clause list")
  | OrderArray (the_orders: "order_clause list")
  | HavingArray (the_havings: "having_clause list")
  | ValueArray (the_values: "jsval list")
  | PlainObject (the_entries: "(string \<times> loader) list")
  | BuilderObject (the_builder: builder)

record heap =
  cells :: "addr \<Rightarrow> cell"
  next_addr :: addr

definition alloc :: "heap \<Rightarrow> cell \<Rightarrow> addr \<times> heap" where
  "alloc h c = (next_addr h, h\<lparr>cells := (cells h)(next_addr h := c), next_addr := Suc (next_addr h)\<rparr>)"

text \<open>Reading the builder at an address, and assigning to its fields.\<close>

definition bld :: "heap \<Rightarrow> addr \<Rightarrow> builder" where
  "bld h p = the_builder (cells h p)"

definition upd :: "heap \<Rightarrow> addr \<Rightarrow> (builder \<Rightarrow> builder) \<Rightarrow> heap" where
  "upd h p f = h\<lparr>cells := (cells h)(p := BuilderObject (f (bld h p)))\<rparr>"

text \<open>The spreads \<open>[...array]\<close> and \<open>{...object}\<close>: a new cell with the same elements.\<close>

definition spread :: "heap \<Rightarrow> addr \<Rightarrow> addr \<times> heap" where
  "spread h a = alloc h (cells h a)"

text \<open>
  Modelled from the spec: the constructor of the query builder (Query/Builder.ts is not
  among the sources) starts every clause sequence and the bindings empty, selects all
  columns, and sets neither limit nor offset. The constructor of EnsembleBuilder then
  stores the model, starts \<open>eagerLoad\<close> as the empty object and calls
  \<open>this.from(model.getTable())\<close>.
\<close>

definition Builder_from :: "heap \<Rightarrow> addr \<Rightarrow> string \<Rightarrow> heap" where
  "Builder_from h this t = upd h this (\<lambda>b. b\<lparr>b_table := t\<rparr>)"

definition new_EnsembleBuilder :: "heap \<Rightarrow> nat \<Rightarrow> ensemble \<Rightarrow> addr \<times> heap" where
  "new_EnsembleBuilder h adapter model =
     (let n = next_addr h;
          this = n + 8;
          h = h\<lparr>cells := (cells h)
                 (n := StrArray [''*''],
                  n + 1 := WhereArray [],
                  n + 2 := JoinArray [],
                  n + 3 := OrderArray [],
                  n + 4 := StrArray [],
                  n + 5 := HavingArray [],
                  n + 6 := ValueArray [],
                  n + 7 := PlainObject [],
                  this := BuilderObject
                    \<lparr>b_adapter = adapter, b_model = model, b_columns = n, b_distinct = False,
                     b_table = [], b_wheres = n + 1, b_joins = n + 2, b_orders = n + 3,
                     b_groups = n + 4, b_havings = n + 5, b_limit = None, b_offset = None,
                     b_bindings = n + 6, b_eagerLoad = n + 7\<rparr>),
               next_addr := n + 9\<rparr>
      in (this, Builder_from h this (table model)))"

text \<open>
  \<open>clone\<close>: the new builder, then the twelve assignments of the source in their order.
  Each is a step on the store; \<open>this\<close> is read again at every step.
\<close>

definition copy_columns :: "addr \<Rightarrow> addr \<Rightarrow> heap \<Rightarrow> heap" where
  "copy_columns this cloned h =
     (let (a, h') = spread h (b_columns (bld h this)) in upd h' cloned (\<lambda>b. b\<lparr>b_columns := a\<rparr>))"

definition copy_distinct :: "addr \<Rightarrow> addr \<Rightarrow> heap \<Rightarrow> heap" where
  "copy_distinct this cloned h = upd h cloned (\<lambda>b. b\<lparr>b_distinct := b_distinct (bld h this)\<rparr>)"

definition copy_table :: "addr \<Rightarrow> addr \<Rightarrow> heap \<Rightarrow> heap" where
  "copy_table this cloned h = upd h cloned (\<lambda>b. b\<lparr>b_table := b_table (bld h this)\<rparr>)"

definition copy_wheres :: "addr \<Rightarrow> addr \<Rightarrow> heap \<Rightarrow> heap" where
  "copy_wheres this cloned h =
     (let (a, h') = spread h (b_wheres (bld h this)) in upd h' cloned (\<lambda>b. b\<lparr>b_wheres := a\<rparr>))"

definition copy_joins :: "addr \<Rightarrow> addr \<Rightarrow> heap \<Rightarrow> heap" where
  "copy_joins this cloned h =
     (let (a, h') = spread h (b_joins (bld h this)) in upd h' cloned (\<lambda>b. b\<lparr>b_joins := a\<rparr>))"

definition copy_orders :: "addr \<Rightarrow> addr \<Rightarrow> heap \<Rightarrow> heap" where
  "copy_orders this cloned h =
     (let (a, h') = spread h (b_orders (bld h this)) in upd h' cloned (\<lambda>b. b\<lparr>b_orders := a\<rparr>))"

definition copy_groups :: "addr \<Rightarrow> addr \<Rightarrow> heap \<Rightarrow> heap" where
  "copy_groups this cloned h =
     (let (a, h') = spread h (b_groups (bld h this)) in upd h' cloned (\<lambda>b. b\<lparr>b_groups := a\<rparr>))"

definition copy_havings :: "addr \<Rightarrow> addr \<Rightarrow> heap \<Rightarrow> heap" where
  "copy_havings this cloned h =
     (let (a, h') = spread h (b_havings (bld h this)) in upd h' cloned (\<lambda>b. b\<lparr>b_havings := a\<rparr>))"

definition copy_limit :: "addr \<Rightarrow> addr \<Rightarrow> heap \<Rightarrow> heap" where
  "copy_limit this cloned h = upd h cloned (\<lambda>b. b\<lparr>b_limit := b_limit (bld h this)\<rparr>)"

definition copy_offset :: "addr \<Rightarrow> addr \<Rightarrow> heap \<Rightarrow> heap" where
  "copy_offset this cloned h = upd h cloned (\<lambda>b. b\<lparr>b_offset := b_offset (bld h this)\<rparr>)"

definition copy_bindings :: "addr \<Rightarrow> addr \<Rightarrow> heap \<Rightarrow> heap" where
  "copy_bindings this cloned h =
     (let (a, h') = spread h (b_bindings (bld h this)) in upd h' cloned (\<lambda>b. b\<lparr>b_bindings := a\<rparr>))"

definition copy_eagerLoad :: "addr \<Rightarrow> addr \<Rightarrow> heap \<Rightarrow> heap" where
  "copy_eagerLoad this cloned h =
     (let (a, h') = spread h (b_eagerLoad (bld h this)) in upd h' cloned (\<lambda>b. b\<lparr>b_eagerLoad := a\<rparr>))"

definition clone :: "heap \<Rightarrow> addr \<Rightarrow> addr \<times> heap" where
  "clone h this =
     (let (cloned, h0) = new_EnsembleBuilder h (b_adapter (bld h this)) (b_model (bld h this))
      in (cloned,
          foldl (\<lambda>h step. step this cloned h) h0
            [copy_columns, copy_distinct, copy_table, copy_wheres, copy_joins, copy_orders,
             copy_groups, copy_havings, copy_limit, copy_offset, copy_bindings,
             copy_eagerLoad]))"

text \<open>
  The logical query of a builder: what its fields and the arrays they refer to hold.
\<close>

record query_state =
  q_columns :: "string list"
  q_distinct :: bool
  q_table :: string
  q_wheres :: "where_clause list"
  q_joins :: "join_clause list"
  q_orders :: "order_clause list"
  q_groups :: "string list"
  q_havings :: "having_clause list"
  q_limit :: "int option"
  q_offset :: "int option"
  q_bindings :: "jsval list"

definition snapshot :: "heap \<Rightarrow> addr \<Rightarrow> query_state" where
  "snapshot h p =
     \<lparr>q_columns = the_strings (cells h (b_columns (bld h p))),
      q_distinct = b_distinct (bld h p),
      q_table = b_table (bld h p),
      q_wheres = the_wheres (cells h (b_wheres (bld h p))),
      q_joins = the_joins (cells h (b_joins (bld h p))),
      q_orders = the_orders (cells h (b_orders (bld h p))),
      q_groups = the_strings (cells h (b_groups (bld h p))),
      q_havings = the_havings (cells h (b_havings (bld h p))),
      q_limit = b_limit (bld h p),
      q_offset = b_offset (bld h p),
      q_bindings = the_values (cells h (b_bindings (bld h p)))\<rparr>"

definition eagerLoads :: "heap \<Rightarrow> addr \<Rightarrow> (string \<times> loader) list" where
  "eagerLoads h p = the_entries (cells h (b_eagerLoad (bld h p)))"

text \<open>
  The addresses a builder refers to, and the well-formed builders: the builder and all
  it refers to were allocated before the next free address, and the builder is none of
  its own arrays.
\<close>

definition refs :: "builder \<Rightarrow> addr list" where
  "refs b = [b_columns b, b_wheres b, b_joins b, b_orders b, b_groups b, b_havings b,
             b_bindings b, b_eagerLoad b]"

definition allocated :: "heap \<Rightarrow> addr \<Rightarrow> bool" where
  "allocated h p =
     (p < next_addr h \<and> list_all (\<lambda>a. a < next_addr h \<and> a \<noteq> p) (refs (bld h p)))"

section \<open>Fluent configuration\<close>

definition update_cell :: "heap \<Rightarrow> addr \<Rightarrow> (cell \<Rightarrow> cell) \<Rightarrow> heap" where
  "update_cell h a f = h\<lparr>cells := (cells h)(a := f (cells h a))\<rparr>"

text \<open>
  Modelled from the spec: the fluent methods of Query/Builder.ts (not among the sources)
  append to the clause sequence they name, or set the scalar they name, on the builder
  they are called on, and return it.
\<close>

definition Builder_offset :: "heap \<Rightarrow> addr \<Rightarrow> int \<Rightarrow> heap" where
  "Builder_offset h this v = upd h this (\<lambda>b. b\<lparr>b_offset := Some v\<rparr>)"

definition Builder_limit :: "heap \<Rightarrow> addr \<Rightarrow> int \<Rightarrow> heap" where
  "Builder_limit h this v = upd h this (\<lambda>b. b\<lparr>b_limit := Some v\<rparr>)"


text \<open>
  \<open>with(relations)\<close> of EnsembleBuilder: one name or an array of names; each is set on the
  \<open>eagerLoad\<close> object (a key already there keeps its place).
\<close>

datatype relations_arg = Relation string | Relations "string list"

definition set_entry :: "(string \<times> loader) list \<Rightarrow> string \<Rightarrow> loader \<Rightarrow> (string \<times> loader) list" where
  "set_entry obj k v =
     (if k \<in> fst ` set obj then map (\<lambda>(k', v'). if k' = k then (k', v) else (k', v')) obj
      else obj @ [(k, v)])"

definition with_relations :: "heap \<Rightarrow> addr \<Rightarrow> relations_arg \<Rightarrow> heap" where
  "with_relations h this relations =
     (let relationArray = (case relations of Relation r \<Rightarrow> [r] | Relations rs \<Rightarrow> rs)
      in foldl (\<lambda>h relation.
            update_cell h (b_eagerLoad (bld h this))
              (\<lambda>c. PlainObject (set_entry (the_entries c) relation Noop)))
          h relationArray)"

text \<open>
  The fluent mutations: appending a column, a where, join, order, group or having
  clause, a binding or eager-load registrations, and setting limit, offset, table or the
  distinct flag.
\<close>

datatype mutation =
    AddColumn string
  | AddWhere where_clause
  | AddJoin join_clause
  | AddOrder order_clause
  | AddGroup string
  | AddHaving having_clause
  | AddBinding jsval
  | With relations_arg
  | SetLimit int
  | SetOffset int
  | SetTable string
  | SetDistinct bool

fun mutate :: "heap \<Rightarrow> addr \<Rightarrow> mutation \<Rightarrow> heap" where
  "mutate h this (AddColumn c) =
     update_cell h (b_columns (bld h this)) (\<lambda>x. StrArray (the_strings x @ [c]))"
| "mutate h this (AddWhere w) =
     update_cell h (b_wheres (bld h this)) (\<lambda>x. WhereArray (the_wheres x @ [w]))"
| "mutate h this (AddJoin j) =
     update_cell h (b_joins (bld h this)) (\<lambda>x. JoinArray (the_joins x @ [j]))"
| "mutate h this (AddOrder ob) =
     update_cell h (b_orders (bld h this)) (\<lambda>x. OrderArray (the_orders x @ [ob]))"
| "mutate h this (AddGroup g) =
     update_cell h (b_groups (bld h this)) (\<lambda>x. StrArray (the_strings x @ [g]))"
| "mutate h this (AddHaving hv) =
     update_cell h (b_havings (bld h this)) (\<lambda>x. HavingArray (the_havings x @ [hv]))"
| "mutate h this (AddBinding v) =
     update_cell h (b_bindings (bld h this)) (\<lambda>x. ValueArray (the_values x @ [v]))"
| "mutate h this (With relations) = with_relations h this relations"
| "mutate h this (SetLimit v) = Builder_limit h this v"
| "mutate h this (SetOffset v) = Builder_offset h this v"
| "mutate h this (SetTable t) = Builder_from h this t"
| "mutate h this (SetDistinct d) = upd h this (\<lambda>b. b\<lparr>b_distinct := d\<rparr>)"

definition mutate_all :: "heap \<Rightarrow> addr \<Rightarrow> mutation list \<Rightarrow> heap" where
  "mutate_all h this ms = foldl (\<lambda>h m. mutate h this m) h ms"

section \<open>Execution, pagination and chunked iteration\<close>

text \<open>
  Modelled from the spec: \<open>get()\<close> and \<open>count()\<close> of Query/Builder.ts and the adapter
  behind them are not among the sources. A database gives, for a logical query without
  its limit and offset, the rows the query matches, in the order of the query; \<open>get()\<close>
  returns the rows from the offset on, at most the limit; \<open>count()\<close> returns the number
  of rows the where, join and group state matches.
\<close>

type_synonym database = "query_state \<Rightarrow> js_object list"

definition unbounded :: "query_state \<Rightarrow> query_state" where
  "unbounded q = q\<lparr>q_limit := None, q_offset := None\<rparr>"

definition slice_rows :: "int option \<Rightarrow> int option \<Rightarrow> 'a list \<Rightarrow> 'a list" where
  "slice_rows start bound rows =
     (let rest = (case start of None \<Rightarrow> rows | Some k \<Rightarrow> drop (nat k) rows)
      in case bound of None \<Rightarrow> rest | Some n \<Rightarrow> take (nat n) rest)"

definition Builder_get :: "database \<Rightarrow> heap \<Rightarrow> addr \<Rightarrow> js_object list" where
  "Builder_get db h this =
     (let q = snapshot h this in slice_rows (q_offset q) (q_limit q) (db (unbounded q)))"

definition Builder_count :: "database \<Rightarrow> heap \<Rightarrow> addr \<Rightarrow> int" where
  "Builder_count db h this = int (length (db (unbounded (snapshot h this))))"


text \<open>\<open>get\<close>, \<open>first\<close> and \<open>find\<close> of EnsembleBuilder.\<close>

definition EnsembleBuilder_get :: "database \<Rightarrow> heap \<Rightarrow> addr \<Rightarrow> ensemble list" where
  "EnsembleBuilder_get db h this =
     (let results = Builder_get db h this in hydrate (b_model (bld h this)) results)"



text \<open>The queries a call sends to the adapter, in order.\<close>

datatype query = CountQuery query_state | SelectQuery query_state

text \<open>
  \<open>Math.ceil(total / perPage)\<close> on integers: the quotient by 0 is an infinity, or NaN
  for \<open>0 / 0\<close>.
\<close>

definition Math_ceil_quotient :: "int \<Rightarrow> int \<Rightarrow> jsnum" where
  "Math_ceil_quotient a b =
     (if b = 0 then (if a = 0 then NaN else if 0 < a then PosInf else NegInf)
      else Fin (of_int \<lceil>(of_int a :: real) / of_int b\<rceil>))"

record pagination =
  p_data :: "ensemble list"
  p_total :: int
  p_perPage :: int
  p_currentPage :: int
  p_lastPage :: jsnum
  p_from :: int
  p_to :: int

text \<open>
  \<open>paginate(perPage, page)\<close>, with integer arguments; the result, the store after the
  call and the queries sent.
\<close>

definition paginate :: "database \<Rightarrow> heap \<Rightarrow> addr \<Rightarrow> int \<Rightarrow> int \<Rightarrow> pagination \<times> heap \<times> query list" where
  "paginate db h this perPage page =
     (let (c1, h1) = clone h this;
          total = Builder_count db h1 c1;
          offset = (page - 1) * perPage;
          (c2, h2) = clone h1 this;
          h3 = Builder_offset h2 c2 offset;
          h4 = Builder_limit h3 c2 perPage;
          data = EnsembleBuilder_get db h4 c2;
          lastPage = Math_ceil_quotient total perPage;
          from = (if total > 0 then offset + 1 else 0);
          to = min (offset + perPage) total
      in (\<lparr>p_data = data, p_total = total, p_perPage = perPage, p_currentPage = page,
           p_lastPage = lastPage, p_from = from, p_to = to\<rparr>,
          h4,
          [CountQuery (snapshot h1 c1), SelectQuery (snapshot h4 c2)]))"

text \<open>
  \<open>chunk(count, callback)\<close>, its first parameter written \<open>cnt\<close>. The callback is a function of the caller: it sees the page
  and its own state \<open>'s\<close>, and returns \<open>false\<close>, \<open>true\<close> or nothing (\<open>None\<close>). The loop
  is the \<open>do ... while (true)\<close> of the source; it records the query of every fetch and
  the page of every call.
\<close>

datatype chunk_event = Fetched query_state | Called "ensemble list"

partial_function (option) chunk_loop ::
  "database \<Rightarrow> ('s \<Rightarrow> ensemble list \<Rightarrow> bool option \<times> 's) \<Rightarrow> addr \<Rightarrow> int
    \<Rightarrow> int \<times> heap \<times> 's \<times> chunk_event list \<Rightarrow> (heap \<times> 's \<times> chunk_event list) option"
where
  "chunk_loop db callback this cnt st =
     (case st of (page, h, s, events) \<Rightarrow>
        (case clone h this of (c, h1) \<Rightarrow>
           (let h2 = Builder_offset h1 c ((page - 1) * cnt);
                h3 = Builder_limit h2 c cnt;
                results = EnsembleBuilder_get db h3 c;
                events = events @ [Fetched (snapshot h3 c)]
            in if length results = 0 then Some (h3, s, events)
               else (case callback s results of (shouldContinue, s') \<Rightarrow>
                       if shouldContinue = Some False then Some (h3, s', events @ [Called results])
                       else chunk_loop db callback this cnt
                              (page + 1, h3, s', events @ [Called results])))))"

definition chunk ::
  "database \<Rightarrow> heap \<Rightarrow> addr \<Rightarrow> int \<Rightarrow> ('s \<Rightarrow> ensemble list \<Rightarrow> bool option \<times> 's) \<Rightarrow> 's
    \<Rightarrow> (heap \<times> 's \<times> chunk_event list) option" where
  "chunk db h this cnt callback s = chunk_loop db callback this cnt (1, h, s, [])"

text \<open>
  What the spec says of \<open>chunk\<close>, on the pages alone: a fetch for every page, the
  callback on every page that is not empty, and the end at the first empty page or the
  first \<open>false\<close>. \<open>fq i\<close> is the query of page \<open>i + 1\<close>.
\<close>

fun chunk_spec ::
  "('s \<Rightarrow> ensemble list \<Rightarrow> bool option \<times> 's) \<Rightarrow> (nat \<Rightarrow> query_state) \<Rightarrow> 's \<Rightarrow> nat
    \<Rightarrow> ensemble list list \<Rightarrow> chunk_event list \<times> 's" where
  "chunk_spec callback fq s i [] = ([Fetched (fq i)], s)"
| "chunk_spec callback fq s i (p # ps) =
     (case callback s p of (shouldContinue, s') \<Rightarrow>
        if shouldContinue = Some False then ([Fetched (fq i), Called p], s')
        else (case chunk_spec callback fq s' (Suc i) ps of
                (events, s'') \<Rightarrow> (Fetched (fq i) # Called p # events, s'')))"

text \<open>The query of page \<open>i + 1\<close>, the rows of that page, and the number of pages that hold a row.\<close>

definition page_query :: "query_state \<Rightarrow> int \<Rightarrow> nat \<Rightarrow> query_state" where
  "page_query q cnt i = q\<lparr>q_limit := Some cnt, q_offset := Some (int i * cnt)\<rparr>"

definition page_rows :: "int \<Rightarrow> 'a list \<Rightarrow> nat \<Rightarrow> 'a list" where
  "page_rows cnt rows i = take (nat cnt) (drop (i * nat cnt) rows)"

definition page_count :: "int \<Rightarrow> 'a list \<Rightarrow> nat" where
  "page_count cnt rows = (length rows + nat cnt - 1) div nat cnt"

text \<open>The pages \<open>i + 1\<close>, \<open>i + 2\<close>, ... of a builder that hold a row, as records.\<close>

definition pages_from :: "database \<Rightarrow> heap \<Rightarrow> addr \<Rightarrow> int \<Rightarrow> nat \<Rightarrow> ensemble list list" where
  "pages_from db h this cnt i =
     map (\<lambda>j. hydrate (b_model (bld h this)) (page_rows cnt (db (unbounded (snapshot h this))) j))
       [i..<page_count cnt (db (unbounded (snapshot h this)))]"

definition calls_of :: "chunk_event list \<Rightarrow> ensemble list list" where
  "calls_of events = concat (map (\<lambda>e. case e of Called p \<Rightarrow> [p] | Fetched q \<Rightarrow> []) events)"

definition fetches_of :: "chunk_event list \<Rightarrow> query_state list" where
  "fetches_of events = concat (map (\<lambda>e. case e of Called p \<Rightarrow> [] | Fetched q \<Rightarrow> [q]) events)"

section \<open>EnsembleCollection: sorting\<close>

text \<open>
  \<open>Array.prototype.sort\<close> is the language's: stable since ES2019. With a consistent
  comparator every stable sort returns the same array, so the model sorts by insertion;
  with another comparator the language leaves the order to the implementation. The
  number a comparator returns is taken as an integer.
\<close>

fun sort_insert :: "('a \<Rightarrow> 'a \<Rightarrow> int) \<Rightarrow> 'a \<Rightarrow> 'a list \<Rightarrow> 'a list" where
  "sort_insert cmp x [] = [x]"
| "sort_insert cmp x (y # ys) = (if cmp x y \<le> 0 then x # y # ys else y # sort_insert cmp x ys)"

definition Array_sort :: "('a \<Rightarrow> 'a \<Rightarrow> int) \<Rightarrow> 'a list \<Rightarrow> 'a list" where
  "Array_sort cmp xs = foldr (sort_insert cmp) xs []"

text \<open>
  The relation \<open><\<close> on two values: two strings compare by code units, any other pair as
  numbers.
\<close>

fun str_lt :: "string \<Rightarrow> string \<Rightarrow> bool" where
  "str_lt [] [] = False"
| "str_lt [] (d # t) = True"
| "str_lt (c # s) [] = False"
| "str_lt (c # s) (d # t) = ((of_char c :: nat) < of_char d \<or> (c = d \<and> str_lt s t))"

definition js_lt :: "jsval \<Rightarrow> jsval \<Rightarrow> bool" where
  "js_lt a b = (case (a, b) of
      (Str s, Str t) \<Rightarrow> str_lt s t
    | _ \<Rightarrow> num_lt (ToNumber a) (ToNumber b))"

text \<open>The two comparators the source writes; \<open>aVal > bVal\<close> is \<open>bVal < aVal\<close>.\<close>

definition compare_key :: "('a \<Rightarrow> string \<Rightarrow> jsval) \<Rightarrow> string \<Rightarrow> 'a \<Rightarrow> 'a \<Rightarrow> int" where
  "compare_key read k a b =
     (let aVal = read a k; bVal = read b k
      in if js_lt aVal bVal then - 1 else if js_lt bVal aVal then 1 else 0)"

definition compare_key_desc :: "('a \<Rightarrow> string \<Rightarrow> jsval) \<Rightarrow> string \<Rightarrow> 'a \<Rightarrow> 'a \<Rightarrow> int" where
  "compare_key_desc read k a b =
     (let aVal = read a k; bVal = read b k
      in if js_lt aVal bVal then 1 else if js_lt bVal aVal then - 1 else 0)"

datatype 'a keyOrCallback = Key string | Callback "'a \<Rightarrow> 'a \<Rightarrow> int"

text \<open>
  \<open>new EnsembleCollection(sorted)\<close> at the end of \<open>sortBy\<close> gives the collection of
  the sorted records.
\<close>

definition sortBy :: "('a \<Rightarrow> string \<Rightarrow> jsval) \<Rightarrow> 'a list \<Rightarrow> 'a keyOrCallback \<Rightarrow> 'a list" where
  "sortBy read this keyOrCallback =
     (case keyOrCallback of
        Callback f \<Rightarrow> Array_sort f this
      | Key k \<Rightarrow> Array_sort (compare_key read k) this)"

definition sortByDesc :: "('a \<Rightarrow> string \<Rightarrow> jsval) \<Rightarrow> 'a list \<Rightarrow> string \<Rightarrow> 'a list" where
  "sortByDesc read this k = sortBy read this (Callback (compare_key_desc read k))"

text \<open>
  A comparator that is consistent on a set of items: the sign turns with the arguments,
  and \<open>\<le> 0\<close> is transitive.
\<close>

definition consistent_on :: "'a set \<Rightarrow> ('a \<Rightarrow> 'a \<Rightarrow> int) \<Rightarrow> bool" where
  "consistent_on S cmp =
     ((\<forall>a\<in>S. \<forall>b\<in>S. (cmp a b < 0) = (0 < cmp b a))
      \<and> (\<forall>a\<in>S. \<forall>b\<in>S. \<forall>c\<in>S. cmp a b \<le> 0 \<longrightarrow> cmp b c \<le> 0 \<longrightarrow> cmp a c \<le> 0))"

text \<open>The real a value holds when it is a finite number; 0 for any other value.\<close>

definition numeric_or_zero :: "jsval \<Rightarrow> real" where
  "numeric_or_zero v = (case v of Number (Fin a) \<Rightarrow> a | _ \<Rightarrow> 0)"

text \<open>Collections whose values under a key are all finite numbers, or all strings.\<close>

definition is_finite_number :: "jsval \<Rightarrow> bool" where
  "is_finite_number v = (case v of Number (Fin a) \<Rightarrow> True | _ \<Rightarrow> False)"

definition is_string :: "jsval \<Rightarrow> bool" where
  "is_string v = (case v of Str s \<Rightarrow> True | _ \<Rightarrow> False)"

definition comparable_keys :: "('a \<Rightarrow> string \<Rightarrow> jsval) \<Rightarrow> string \<Rightarrow> 'a list \<Rightarrow> bool" where
  "comparable_keys read k xs =
     (list_all (\<lambda>x. is_finite_number (read x k)) xs \<or> list_all (\<lambda>x. is_string (read x k)) xs)"

section \<open>DatabaseManager\<close>

text \<open>
  A connection configuration is known by the adapter it names and its driver and
  database. An adapter factory is a function of the caller; a call of one is recorded.
  \<open>Connection\<close> (Connection.ts is not among the sources) is built from the adapter and
  the configuration.
\<close>

record DatabaseConnectionConfig =
  cfg_adapter :: string
  cfg_driver :: string
  cfg_database :: string

record 'a Connection =
  conn_adapter :: 'a
  conn_config :: DatabaseConnectionConfig

record 'a DatabaseManager =
  connections :: "(string \<times> 'a Connection) list"
  adapterFactories :: "(string \<times> (DatabaseConnectionConfig \<Rightarrow> 'a)) list"
  config_default :: string
  config_connections :: "(string \<times> DatabaseConnectionConfig) list"

datatype manager_error = ConnectionNotConfigured string | AdapterNotRegistered string

text \<open>
  \<open>this.config.connections[name]\<close> reads a plain object: a name that is not a key of the
  object but a member of \<open>Object.prototype\<close> reads as that member, which is truthy and
  has no \<open>adapter\<close>.
\<close>

definition Object_prototype_members :: "string list" where
  "Object_prototype_members =
     [''constructor'', ''hasOwnProperty'', ''isPrototypeOf'', ''propertyIsEnumerable'',
      ''toLocaleString'', ''toString'', ''valueOf'', ''__proto__'', ''__defineGetter__'',
      ''__defineSetter__'', ''__lookupGetter__'', ''__lookupSetter__'']"

datatype 'c property_read = OwnProperty 'c | InheritedMember | NoProperty

definition read_connections :: "(string \<times> 'c) list \<Rightarrow> string \<Rightarrow> 'c property_read" where
  "read_connections obj name =
     (case map_of obj name of
        Some c \<Rightarrow> OwnProperty c
      | None \<Rightarrow> if name \<in> set Object_prototype_members then InheritedMember else NoProperty)"

text \<open>
  \<open>createConnection\<close>: the error thrown, or the connection; and the factory calls made.
\<close>

definition createConnection ::
  "'a DatabaseManager \<Rightarrow> string
    \<Rightarrow> (manager_error + 'a Connection) \<times> (string \<times> DatabaseConnectionConfig) list" where
  "createConnection this name =
     (case read_connections (config_connections this) name of
        NoProperty \<Rightarrow> (Inl (ConnectionNotConfigured name), [])
      | InheritedMember \<Rightarrow> (Inl (AdapterNotRegistered ''undefined''), [])
      | OwnProperty config \<Rightarrow>
          (case map_of (adapterFactories this) (cfg_adapter config) of
             None \<Rightarrow> (Inl (AdapterNotRegistered (cfg_adapter config)), [])
           | Some adapterFactory \<Rightarrow>
               (let adapter = adapterFactory config
                in (Inr \<lparr>conn_adapter = adapter, conn_config = config\<rparr>,
                    [(cfg_adapter config, config)]))))"

text \<open>
  \<open>connection(name?)\<close>: the name left out or empty stands for the default; a cached
  connection is returned; a new one is cached only once it is created.
\<close>

definition connection ::
  "'a DatabaseManager \<Rightarrow> string option
    \<Rightarrow> (manager_error + 'a Connection) \<times> 'a DatabaseManager
        \<times> (string \<times> DatabaseConnectionConfig) list" where
  "connection this name =
     (let connectionName = (case name of None \<Rightarrow> config_default this
                            | Some n \<Rightarrow> if n = [] then config_default this else n)
      in case map_of (connections this) connectionName of
           Some c \<Rightarrow> (Inr c, this, [])
         | None \<Rightarrow>
            (case createConnection this connectionName of
               (Inl e, calls) \<Rightarrow> (Inl e, this, calls)
             | (Inr c, calls) \<Rightarrow>
                 (Inr c, this\<lparr>connections := connections this @ [(connectionName, c)]\<rparr>, calls)))"

text \<open>Registering an adapter factory: \<open>Map.set\<close>.\<close>

definition registerAdapter ::
  "'a DatabaseManager \<Rightarrow> string \<Rightarrow> (DatabaseConnectionConfig \<Rightarrow> 'a) \<Rightarrow> 'a DatabaseManager" where
  "registerAdapter this name factory =
     this\<lparr>adapterFactories :=
       (if name \<in> fst ` set (adapterFactories this)
        then map (\<lambda>(k, f). if k = name then (k, factory) else (k, f)) (adapterFactories this)
        else adapterFactories this @ [(name, factory)])\<rparr>"



section \<open>Compilation to SQL\<close>

text \<open>
  Modelled from the spec: Query/Builder.ts, with \<open>where\<close>, \<open>orWhere\<close>, \<open>having\<close>,
  \<open>join\<close> and the compilation, is not among the sources. The spec fixes the order of
  the clauses (\<open>SELECT [DISTINCT] columns FROM table [JOIN...] [WHERE...] [GROUP BY...]
  [HAVING...] [ORDER BY...] [LIMIT] [OFFSET]\<close>), has every clause that carries a value
  (where, having, join-on-condition) emit a placeholder and append its value to a
  bindings list built at compilation in the order of emission, and drops the connector
  of the first where clause. It leaves the spelling of a placeholder to the adapter (one
  placeholder style for each adapter), so the compiled text is a string of characters
  and placeholders, and \<open>written\<close> spells the placeholders. The keywords and the
  spacing of the text are this model's; names are emitted as the caller gave them.
\<close>

datatype config_call =
    CallWhere string string jsval
  | CallOrWhere string string jsval
  | CallHaving string string jsval
  | CallJoin join_type string string string string

fun configure :: "query_state \<Rightarrow> config_call \<Rightarrow> query_state" where
  "configure q (CallWhere c op v) = q\<lparr>q_wheres := q_wheres q @ [WhereClause c op v LinkAnd]\<rparr>"
| "configure q (CallOrWhere c op v) = q\<lparr>q_wheres := q_wheres q @ [WhereClause c op v LinkOr]\<rparr>"
| "configure q (CallHaving c op v) = q\<lparr>q_havings := q_havings q @ [HavingClause c op v]\<rparr>"
| "configure q (CallJoin t tbl a op b) =
     q\<lparr>q_joins := q_joins q @ [JoinClause t tbl a (Some op) (Some b)]\<rparr>"

text \<open>What compilation emits: text, or a placeholder with the value bound to it.\<close>

datatype sql_piece = Lit string | Bind jsval

datatype sql_char = Ch char | Placeholder

fun emit :: "sql_piece list \<Rightarrow> sql_char list \<times> jsval list" where
  "emit [] = ([], [])"
| "emit (Lit s # ps) = (case emit ps of (sql, bindings) \<Rightarrow> (map Ch s @ sql, bindings))"
| "emit (Bind v # ps) = (case emit ps of (sql, bindings) \<Rightarrow> (Placeholder # sql, v # bindings))"

definition written :: "string \<Rightarrow> sql_char list \<Rightarrow> string" where
  "written mark sql = concat (map (\<lambda>c. case c of Ch c \<Rightarrow> [c] | Placeholder \<Rightarrow> mark) sql)"

fun separated :: "sql_piece list \<Rightarrow> sql_piece list list \<Rightarrow> sql_piece list" where
  "separated sep [] = []"
| "separated sep [x] = x"
| "separated sep (x # y # zs) = x @ sep @ separated sep (y # zs)"

function show_nat :: "nat \<Rightarrow> string" where
  "show_nat n = (if n < 10 then [char_of (48 + n)] else show_nat (n div 10) @ [char_of (48 + n mod 10)])"
  by pat_completeness auto
termination
  by (relation "measure id") auto

definition show_int :: "int \<Rightarrow> string" where
  "show_int i = (if i < 0 then CHR ''-'' # show_nat (nat (- i)) else show_nat (nat i))"

definition compile_select :: "query_state \<Rightarrow> sql_piece list" where
  "compile_select q =
     [Lit ''SELECT ''] @ (if q_distinct q then [Lit ''DISTINCT ''] else [])
     @ separated [Lit '', ''] (map (\<lambda>c. [Lit c]) (q_columns q))
     @ [Lit '' FROM '', Lit (q_table q)]"

definition join_keyword :: "join_type \<Rightarrow> string" where
  "join_keyword t = (case t of InnerJoin \<Rightarrow> ''INNER'' | LeftJoin \<Rightarrow> ''LEFT''
                     | RightJoin \<Rightarrow> ''RIGHT'' | CrossJoin \<Rightarrow> ''CROSS'')"

definition compile_join :: "join_clause \<Rightarrow> sql_piece list" where
  "compile_join j =
     [Lit '' '', Lit (join_keyword (jc_type j)), Lit '' JOIN '', Lit (jc_table j)]
     @ (case jc_second j of
          None \<Rightarrow> []
        | Some b \<Rightarrow>
            [Lit '' ON '', Lit (jc_first j), Lit '' '',
             Lit (case jc_operator j of None \<Rightarrow> ''='' | Some op \<Rightarrow> op), Lit '' '',
             Bind (Str b)])"

definition compile_where :: "where_clause \<Rightarrow> sql_piece list" where
  "compile_where w = [Lit (wc_column w), Lit '' '', Lit (wc_operator w), Lit '' '', Bind (wc_value w)]"

definition connector :: "where_clause \<Rightarrow> string" where
  "connector w = (case wc_boolean w of LinkAnd \<Rightarrow> '' AND '' | LinkOr \<Rightarrow> '' OR '')"

definition compile_wheres :: "where_clause list \<Rightarrow> sql_piece list" where
  "compile_wheres ws =
     (case ws of
        [] \<Rightarrow> []
      | w # rest \<Rightarrow>
          [Lit '' WHERE ''] @ compile_where w
          @ concat (map (\<lambda>w. Lit (connector w) # compile_where w) rest))"

definition compile_groups :: "string list \<Rightarrow> sql_piece list" where
  "compile_groups gs =
     (if gs = [] then [] else [Lit '' GROUP BY ''] @ separated [Lit '', ''] (map (\<lambda>g. [Lit g]) gs))"

definition compile_having :: "having_clause \<Rightarrow> sql_piece list" where
  "compile_having hv = [Lit (hc_column hv), Lit '' '', Lit (hc_operator hv), Lit '' '', Bind (hc_value hv)]"

definition compile_havings :: "having_clause list \<Rightarrow> sql_piece list" where
  "compile_havings hs =
     (if hs = [] then [] else [Lit '' HAVING ''] @ separated [Lit '' AND ''] (map compile_having hs))"

definition compile_order :: "order_clause \<Rightarrow> sql_piece list" where
  "compile_order ob =
     [Lit (oc_column ob), Lit (case oc_direction ob of Asc \<Rightarrow> '' ASC'' | Desc \<Rightarrow> '' DESC'')]"

definition compile_orders :: "order_clause list \<Rightarrow> sql_piece list" where
  "compile_orders os =
     (if os = [] then [] else [Lit '' ORDER BY ''] @ separated [Lit '', ''] (map compile_order os))"

definition compile_bounds :: "query_state \<Rightarrow> sql_piece list" where
  "compile_bounds q =
     (case q_limit q of None \<Rightarrow> [] | Some n \<Rightarrow> [Lit '' LIMIT '', Lit (show_int n)])
     @ (case q_offset q of None \<Rightarrow> [] | Some n \<Rightarrow> [Lit '' OFFSET '', Lit (show_int n)])"

definition compile :: "query_state \<Rightarrow> sql_piece list" where
  "compile q =
     compile_select q @ concat (map compile_join (q_joins q)) @ compile_wheres (q_wheres q)
     @ compile_groups (q_groups q) @ compile_havings (q_havings q)
     @ compile_orders (q_orders q) @ compile_bounds q"

definition toSql :: "query_state \<Rightarrow> sql_char list" where
  "toSql q = fst (emit (compile q))"

definition compiled_bindings :: "query_state \<Rightarrow> jsval list" where
  "compiled_bindings q = snd (emit (compile q))"



text \<open>
  With the placeholder spelled as a question mark: names without a question mark, and
  the calls and queries that use only such names.
\<close>

definition clean :: "string \<Rightarrow> bool" where
  "clean s = (CHR ''?'' \<notin> set s)"

definition clean_call :: "config_call \<Rightarrow> bool" where
  "clean_call c = (case c of
      CallWhere col op v \<Rightarrow> clean col \<and> clean op
    | CallOrWhere col op v \<Rightarrow> clean col \<and> clean op
    | CallHaving col op v \<Rightarrow> clean col \<and> clean op
    | CallJoin t tbl a op b \<Rightarrow> clean tbl \<and> clean a \<and> clean op)"

definition clean_query :: "query_state \<Rightarrow> bool" where
  "clean_query q =
     (list_all clean (q_columns q) \<and> clean (q_table q) \<and> list_all clean (q_groups q)
      \<and> list_all (\<lambda>j. clean (jc_table j) \<and> clean (jc_first j)
                       \<and> (case jc_operator j of None \<Rightarrow> True | Some op \<Rightarrow> clean op)) (q_joins q)
      \<and> list_all (\<lambda>w. clean (wc_column w) \<and> clean (wc_operator w)) (q_wheres q)
      \<and> list_all (\<lambda>hv. clean (hc_column hv) \<and> clean (hc_operator hv)) (q_havings q)
      \<and> list_all (\<lambda>ob. clean (oc_column ob)) (q_orders q))"




text \<open>The values bound in a list of pieces, and the values the join clauses of a query carry.\<close>

definition binds_of :: "sql_piece list \<Rightarrow> jsval list" where
  "binds_of ps = concat (map (\<lambda>p. case p of Lit s \<Rightarrow> [] | Bind v \<Rightarrow> [v]) ps)"

definition clean_pieces :: "sql_piece list \<Rightarrow> bool" where
  "clean_pieces ps = list_all (\<lambda>p. case p of Lit s \<Rightarrow> clean s | Bind v \<Rightarrow> True) ps"


text \<open>The query of a new builder on a table.\<close>

definition new_query :: "string \<Rightarrow> query_state" where
  "new_query t =
     \<lparr>q_columns = [''*''], q_distinct = False, q_table = t, q_wheres = [], q_joins = [],
      q_orders = [], q_groups = [], q_havings = [], q_limit = None, q_offset = None,
      q_bindings = []\<rparr>"

section \<open>Examples\<close>

text \<open>
  A store holding one builder for a model \<open>User\<close> on the table \<open>users\<close>, as its
  constructor leaves it, and a database that answers every query with \<open>n\<close> rows.
\<close>

definition user_model :: ensemble where
  "user_model = \<lparr>model_class = ''User'', table = ''users'', primaryKeyName = ''id'',
     attributes = [], original = [], exists = False\<rparr>"

definition users_heap :: heap where
  "users_heap = snd (new_EnsembleBuilder \<lparr>cells = (\<lambda>a. PlainObject []), next_addr = 0\<rparr> 0 user_model)"

definition users_builder :: addr where
  "users_builder = 8"

definition numbered_rows :: "nat \<Rightarrow> js_object list" where
  "numbered_rows n = map (\<lambda>i. [(''id'', Number (Fin (real i)))]) [1..<Suc n]"

text \<open>
  A manager configured with one connection \<open>main\<close> on the adapter \<open>drizzle\<close>, with no
  factory registered and nothing cached. Adapters are numbers here.
\<close>

definition unregistered_manager :: "nat DatabaseManager" where
  "unregistered_manager =
     \<lparr>connections = [], adapterFactories = [], config_default = ''main'',
      config_connections =
        [(''main'', \<lparr>cfg_adapter = ''drizzle'', cfg_driver = ''sqlite'', cfg_database = ''app.db''\<rparr>)]\<rparr>"

section \<open>Aggregates of the empty collection\<close>

text \<open>
  Claim C7. On the empty collection, whatever the key, \<open>sum\<close> and \<open>avg\<close> return the
  number 0, and \<open>min\<close> and \<open>max\<close> return \<open>undefined\<close> (here \<open>None\<close>, returned and not
  thrown), which is not the number 0.
\<close>

theorem empty_collection_aggregates:
  "sum_coll read [] key = Fin 0 \<and> avg read [] key = Fin 0
   \<and> min_coll read [] key = Inr None \<and> max_coll read [] key = Inr None
   \<and> min_coll read [] key \<noteq> Inr (Some (Fin 0)) \<and> max_coll read [] key \<noteq> Inr (Some (Fin 0))"
  by (simp add: sum_coll_def avg_def min_coll_def max_coll_def isEmpty_def)

section \<open>Rounding to a double\<close>

lemma binary_digits_0 [simp]: "binary_digits 0 = 0"
  by (simp add: binary_digits.simps)

lemma binary_digits_1 [simp]: "binary_digits (Suc 0) = 1"
  by (simp add: binary_digits.simps)

lemma binary_digits_numeral [simp]:
  "binary_digits (numeral k) = Suc (binary_digits (numeral k div 2))"
  by (subst binary_digits.simps) simp

lemmas double_defs = to_double_def floor_log2_def pow2_def round_half_even_def Let_def

text \<open>
  A number has exactly \<open>binary_digits\<close> binary digits: a positive \<open>n\<close> lies between
  \<open>2 ^ (binary_digits n - 1)\<close> and \<open>2 ^ binary_digits n\<close>.
\<close>

lemma binary_digits_bounds:
  "0 < n \<Longrightarrow> 2 ^ (binary_digits n - 1) \<le> n \<and> n < 2 ^ binary_digits n"
proof (induction n rule: binary_digits.induct)
  case (1 n)
  show ?case
  proof (cases "n div 2 = 0")
    case True
    then have "n = 1" using 1(2) by presburger
    then show ?thesis by simp
  next
    case False
    then have ih: "2 ^ (binary_digits (n div 2) - 1) \<le> n div 2" "n div 2 < 2 ^ binary_digits (n div 2)"
      using 1 by auto
    have d: "binary_digits n = Suc (binary_digits (n div 2))"
      using 1(2) by (subst binary_digits.simps) simp
    have "0 < binary_digits (n div 2)"
      using False by (subst binary_digits.simps) simp
    then obtain j where j: "binary_digits (n div 2) = Suc j"
      by (cases "binary_digits (n div 2)") simp_all
    have lo: "2 * (n div 2) \<le> n"
      using mult_div_mod_eq [of 2 n] by linarith
    have hi: "n < 2 * (n div 2) + 2"
      using mult_div_mod_eq [of 2 n] mod_less_divisor [of 2 n] by linarith
    have "2 * 2 ^ j \<le> n" using ih(1) lo unfolding j by simp
    moreover have "n < 2 * (2 * 2 ^ j)" using ih(2) hi unfolding j by simp
    ultimately show ?thesis unfolding d j by simp
  qed
qed

lemma round_half_even_of_int [simp]: "round_half_even (of_int k) = k"
  by (simp add: round_half_even_def)

text \<open>An integer of magnitude at most \<open>2 ^ 53\<close> is a double: rounding leaves it as it is.\<close>

lemma to_double_exact:
  assumes "x \<noteq> 0" and "max (floor_log2 \<bar>x\<bar> - 52) (- 1074) = e"
    and "x / pow2 e = of_int k" and "\<bar>x\<bar> < 2 ^ 1024"
  shows "to_double x = Fin x"
proof -
  have p: "pow2 e \<noteq> 0" by (simp add: pow2_def)
  have "of_int (round_half_even (x / pow2 e)) * pow2 e = x"
    unfolding assms(3) round_half_even_of_int using assms(3) p
    by (metis nonzero_divide_eq_eq)
  then show ?thesis using assms(1,2,4) by (simp add: to_double_def Let_def)
qed

lemma to_double_of_int:
  assumes "\<bar>n\<bar> \<le> 2 ^ 53"
  shows "to_double (of_int n) = Fin (of_int n)"
proof (cases "n = 0")
  case True
  then show ?thesis by (simp add: to_double_def)
next
  case False
  define m where "m = nat \<bar>n\<bar>"
  define d where "d = binary_digits m"
  have m: "0 < m" "m \<le> 2 ^ 53" using False assms by (auto simp: m_def nat_le_iff)
  have b: "2 ^ (d - 1) \<le> m" "m < 2 ^ d"
    using binary_digits_bounds [OF m(1)] by (simp_all add: d_def)
  have d1: "1 \<le> d" using m(1) unfolding d_def by (subst binary_digits.simps) simp
  have "(2::nat) ^ (d - 1) \<le> 2 ^ 53" using b(1) m(2) by linarith
  then have "d - 1 \<le> 53" by (rule power_le_imp_le_exp [rotated]) simp
  then have d2: "d \<le> 54" by simp
  have x0: "real_of_int n \<noteq> 0" using False by simp
  have ge1: "1 \<le> \<bar>real_of_int n\<bar>"
  proof -
    have "1 \<le> \<bar>n\<bar>" using False by linarith
    then have "real_of_int 1 \<le> real_of_int \<bar>n\<bar>" by (simp only: of_int_le_iff)
    then show ?thesis by simp
  qed
  have fm: "nat \<lfloor>\<bar>real_of_int n\<bar>\<rfloor> = m"
  proof -
    have "\<bar>real_of_int n\<bar> = real_of_int \<bar>n\<bar>" by simp
    then show ?thesis unfolding m_def by (simp only: floor_of_int)
  qed
  have fl: "floor_log2 \<bar>real_of_int n\<bar> = int d - 1"
    using ge1 by (simp add: floor_log2_def fm d_def)
  have e: "max (floor_log2 \<bar>real_of_int n\<bar> - 52) (- 1074) = int d - 53"
    using d1 by (simp add: fl)
  have small: "\<bar>real_of_int n\<bar> < 2 ^ 1024"
  proof -
    have "real_of_int \<bar>n\<bar> \<le> real_of_int (2 ^ 53)" using assms by (simp only: of_int_le_iff)
    then have "\<bar>real_of_int n\<bar> \<le> 2 ^ 53" by simp
    also have "\<dots> < (2::real) ^ 1024" by (rule power_strict_increasing) simp_all
    finally show ?thesis .
  qed
  show ?thesis
  proof (cases "d \<le> 53")
    case True
    have p: "pow2 (int d - 53) = 1 / 2 ^ (53 - d)"
    proof (cases "d = 53")
      case True
      then show ?thesis by (simp add: pow2_def)
    next
      case False
      then have "int d - 53 < 0" "nat (53 - int d) = 53 - d" using True by simp_all
      then show ?thesis by (simp add: pow2_def)
    qed
    have q: "real_of_int n / pow2 (int d - 53) = of_int (n * 2 ^ (53 - d))"
      by (simp add: p)
    show ?thesis by (rule to_double_exact [OF x0 e q small])
  next
    case False
    then have d54: "d = 54" using d2 by simp
    have "2 ^ 53 \<le> m" using b(1) by (simp add: d54)
    then have m53: "m = 2 ^ 53" using m(2) by simp
    have "int m = \<bar>n\<bar>" by (simp add: m_def)
    then have n53: "\<bar>n\<bar> = 2 ^ 53" by (simp add: m53)
    have two: "\<exists>j. n = 2 * j"
    proof (cases "0 \<le> n")
      case True
      then have "n = 2 * 2 ^ 52" using n53 by simp
      then show ?thesis ..
    next
      case False
      then have "n = 2 * (- (2 ^ 52))" using n53 by simp
      then show ?thesis ..
    qed
    then obtain j where j: "n = 2 * j" ..
    have p: "pow2 (int d - 53) = 2" by (simp add: d54 pow2_def)
    have q: "real_of_int n / pow2 (int d - 53) = of_int j" by (simp add: p j)
    show ?thesis by (rule to_double_exact [OF x0 e q small])
  qed
qed

text \<open>
  Adding as doubles: 0.1 + 0.2 (the doubles nearest to them) is the double above the one
  nearest to 0.3, and the sum of two finite doubles can be an infinity.
\<close>

lemma num_add_rounds:
  "to_double (1 / 10) = Fin (3602879701896397 / 2 ^ 55)"
  "to_double (2 / 10) = Fin (3602879701896397 / 2 ^ 54)"
  "to_double (3 / 10) = Fin (5404319552844595 / 2 ^ 54)"
  "num_add (Fin (3602879701896397 / 2 ^ 55)) (Fin (3602879701896397 / 2 ^ 54))
     = Fin (5404319552844596 / 2 ^ 54)"
  by (simp_all add: double_defs)

lemma num_add_overflows: "num_add (Fin (2 ^ 1023)) (Fin (2 ^ 1023)) = PosInf"
  by (simp add: double_defs)

section \<open>Sum and average\<close>

lemma StringToNumber_empty: "StringToNumber [] = Fin 0"
  by (simp add: StringToNumber_def trim_def)

lemma item_number_counted:
  assumes "k \<noteq> []"
  shows "item_number read (Some k) item = counted (read item k)"
proof (cases "read item k")
  case (Str s)
  then show ?thesis
    by (cases "s = []")
      (simp_all add: item_number_def counted_def or_zero_def truthy_def ToNumber_def
        StringToNumber_empty)
qed (auto simp: item_number_def counted_def or_zero_def truthy_def ToNumber_def)

lemma sum_coll_sum_of:
  assumes "k \<noteq> []"
  shows "sum_coll read this (Some k) = sum_of (map (\<lambda>item. counted (read item k)) this)"
  using assms
  by (simp add: sum_coll_def no_key_def sum_of_def foldl_map item_number_counted)

lemma num_add_NaN [simp]: "num_add NaN b = NaN" "num_add a NaN = NaN"
  by (cases a; simp)+

lemma foldl_num_add_NaN: "foldl num_add NaN ns = NaN"
  by (induction ns) simp_all

lemma sum_NaN: "NaN \<in> set ns \<Longrightarrow> foldl num_add a ns = NaN"
  by (induction ns arbitrary: a) (auto simp: foldl_num_add_NaN)

lemma sum_integers:
  assumes "\<forall>n\<in>set ns. is_integer n"
    and "\<bar>a\<bar> + (\<Sum>n\<leftarrow>ns. \<bar>real_of n\<bar>) \<le> 2 ^ 53"
  shows "foldl num_add (Fin (of_int a)) ns = Fin (of_int a + (\<Sum>n\<leftarrow>ns. real_of n))"
  using assms
proof (induction ns arbitrary: a)
  case Nil
  then show ?case by simp
next
  case (Cons n ns)
  from Cons.prems(1) obtain i :: int where n: "n = Fin (of_int i)"
    by (cases n) (auto simp: is_integer_def)
  have bound: "real_of_int \<bar>a\<bar> + (\<bar>real_of_int i\<bar> + (\<Sum>n\<leftarrow>ns. \<bar>real_of n\<bar>)) \<le> 2 ^ 53"
    using Cons.prems(2) by (simp add: n real_of_def)
  have nonneg: "0 \<le> (\<Sum>n\<leftarrow>ns. \<bar>real_of n\<bar>)" by (rule sum_list_nonneg) auto
  have "real_of_int \<bar>a + i\<bar> \<le> 2 ^ 53"
    using bound nonneg by (simp add: abs_if split: if_splits)
  then have small: "\<bar>a + i\<bar> \<le> 2 ^ 53"
    by (metis of_int_le_iff of_int_numeral of_int_power)
  have step: "num_add (Fin (of_int a)) n = Fin (of_int (a + i))"
    using to_double_of_int [OF small] by (simp add: n)
  have "real_of_int \<bar>a + i\<bar> + (\<Sum>n\<leftarrow>ns. \<bar>real_of n\<bar>) \<le> 2 ^ 53"
    using bound by (simp add: abs_if split: if_splits)
  then have "foldl num_add (Fin (of_int (a + i))) ns = Fin (of_int (a + i) + (\<Sum>n\<leftarrow>ns. real_of n))"
    using Cons.IH [of "a + i"] Cons.prems(1) by simp
  moreover have "foldl num_add (Fin (of_int a)) (n # ns) = foldl num_add (Fin (of_int (a + i))) ns"
    by (simp only: foldl_Cons step)
  moreover have "real_of n = of_int i" by (simp add: n real_of_def)
  ultimately show ?case by simp
qed

text \<open>
  Claim C8, as amended. For a named key, \<open>sum\<close> is the sum, added as doubles from 0 in
  the order of the collection, of what each record's value under the key counts:
  \<open>undefined\<close> (a missing value), \<open>null\<close>, \<open>false\<close>, NaN and the empty string count
  0, a number counts itself, \<open>true\<close> counts 1, and a string counts the number
  \<open>Number\<close> reads in it. \<open>avg\<close> on a collection that is not empty is that sum divided
  by the length, as a double. So the sum is NaN as soon as one value counts NaN, and it
  is the exact sum when the values count integers whose magnitudes add up to at most
  \<open>2 ^ 53\<close>.
\<close>

theorem sum_avg_counted:
  assumes "k \<noteq> []"
  shows "sum_coll read this (Some k) = sum_of (map (\<lambda>item. counted (read item k)) this)
    \<and> (this \<noteq> [] \<longrightarrow>
         avg read this (Some k)
           = num_div_pos (sum_of (map (\<lambda>item. counted (read item k)) this)) (length this))
    \<and> ((\<exists>item\<in>set this. counted (read item k) = NaN) \<longrightarrow> sum_coll read this (Some k) = NaN)
    \<and> ((\<forall>item\<in>set this. is_integer (counted (read item k)))
          \<and> (\<Sum>item\<leftarrow>this. \<bar>real_of (counted (read item k))\<bar>) \<le> 2 ^ 53 \<longrightarrow>
         sum_coll read this (Some k) = Fin (\<Sum>item\<leftarrow>this. real_of (counted (read item k))))"
proof -
  let ?ns = "map (\<lambda>item. counted (read item k)) this"
  have s: "sum_coll read this (Some k) = sum_of ?ns"
    by (rule sum_coll_sum_of [OF assms])
  have a: "this \<noteq> [] \<longrightarrow> avg read this (Some k) = num_div_pos (sum_of ?ns) (length this)"
    by (simp add: avg_def isEmpty_def s)
  have n: "(\<exists>item\<in>set this. counted (read item k) = NaN) \<longrightarrow> sum_coll read this (Some k) = NaN"
  proof
    assume "\<exists>item\<in>set this. counted (read item k) = NaN"
    then have "NaN \<in> set ?ns" by force
    then show "sum_coll read this (Some k) = NaN" unfolding s sum_of_def by (rule sum_NaN)
  qed
  have i: "(\<forall>item\<in>set this. is_integer (counted (read item k)))
          \<and> (\<Sum>item\<leftarrow>this. \<bar>real_of (counted (read item k))\<bar>) \<le> 2 ^ 53 \<longrightarrow>
         sum_coll read this (Some k) = Fin (\<Sum>item\<leftarrow>this. real_of (counted (read item k)))"
  proof
    assume h: "(\<forall>item\<in>set this. is_integer (counted (read item k)))
          \<and> (\<Sum>item\<leftarrow>this. \<bar>real_of (counted (read item k))\<bar>) \<le> 2 ^ 53"
    have "foldl num_add (Fin (of_int 0)) ?ns = Fin (of_int 0 + (\<Sum>n\<leftarrow>?ns. real_of n))"
      using h by (intro sum_integers) (simp_all add: comp_def)
    then show "sum_coll read this (Some k) = Fin (\<Sum>item\<leftarrow>this. real_of (counted (read item k)))"
      by (simp add: s sum_of_def comp_def)
  qed
  show ?thesis using s a n i by blast
qed

theorem sum_avg_counted_witness:
  "''price'' \<noteq> [] \<and> mixed_products \<noteq> []
   \<and> map (\<lambda>item. counted (getProp item ''price'')) mixed_products = [Fin 5, Fin 0, Fin 0, Fin 4, Fin 1]
   \<and> list_all (\<lambda>item. is_integer (counted (getProp item ''price''))) mixed_products
   \<and> (\<Sum>item\<leftarrow>mixed_products. \<bar>real_of (counted (getProp item ''price''))\<bar>) \<le> 2 ^ 53
   \<and> sum_coll getProp mixed_products (Some ''price'') = Fin 10
   \<and> avg getProp mixed_products (Some ''price'') = Fin 2
   \<and> sum_coll getProp tenths (Some ''price'') = Fin (5404319552844596 / 2 ^ 54)
   \<and> sum_coll getProp tenths (Some ''price'') \<noteq> to_double (3 / 10)
   \<and> avg getProp tenths (Some ''price'') = Fin (5404319552844596 / 2 ^ 55)
   \<and> list_ex (\<lambda>item. counted (getProp item ''price'') = NaN)
        [product [(''price'', Str ''abc'')], product [(''price'', Number (Fin 5))]]
   \<and> sum_coll getProp [product [(''price'', Str ''abc'')], product [(''price'', Number (Fin 5))]] (Some ''price'') = NaN
   \<and> sum_coll read_member mixed_products (Some ''exists'') = Fin 5"
proof -
  let ?bad = "[product [(''price'', Str ''abc'')], product [(''price'', Number (Fin 5))]]"
  have k: "''price'' \<noteq> []" by simp
  note t = sum_avg_counted [OF k, where read=getProp and this=mixed_products]
  note u = sum_avg_counted [OF k, where read=getProp and this=tenths]
  note v = sum_avg_counted [OF k, where read=getProp and this="?bad"]
  have four: "StringToNumber ''4'' = Fin 4"
    by (simp add: StringToNumber_def trim_def is_ws_def non_decimal_def unsigned_decimal_def
        mantissa_part_def all_digits_def is_digit_def digit_of_def digits_val_def is_exp_mark_def
        exponent_part_def scale10_def double_defs)
  have abc: "StringToNumber ''abc'' = NaN"
    by (simp add: StringToNumber_def trim_def is_ws_def non_decimal_def unsigned_decimal_def
        mantissa_part_def all_digits_def is_digit_def digit_of_def is_exp_mark_def exponent_part_def)
  have c: "map (\<lambda>item. counted (getProp item ''price'')) mixed_products = [Fin 5, Fin 0, Fin 0, Fin 4, Fin 1]"
    by (simp add: mixed_products_def product_def getProp_def counted_def four)
  have i: "list_all (\<lambda>item. is_integer (counted (getProp item ''price''))) mixed_products"
    using c by (simp add: mixed_products_def is_integer_def)
  have b: "(\<Sum>item\<leftarrow>mixed_products. \<bar>real_of (counted (getProp item ''price''))\<bar>) \<le> 2 ^ 53"
    using c by (simp add: mixed_products_def real_of_def)
  have "sum_coll getProp mixed_products (Some ''price'')
      = Fin (\<Sum>item\<leftarrow>mixed_products. real_of (counted (getProp item ''price'')))"
    using t i [unfolded list_all_iff] b by blast
  also have "(\<Sum>item\<leftarrow>mixed_products. real_of (counted (getProp item ''price'')))
      = sum_list (map real_of (map (\<lambda>item. counted (getProp item ''price'')) mixed_products))"
    by (simp add: comp_def)
  also have "\<dots> = 10" unfolding c by (simp add: real_of_def)
  finally have s: "sum_coll getProp mixed_products (Some ''price'') = Fin 10" .
  have kx: "''exists'' \<noteq> []" by simp
  have x: "sum_coll read_member mixed_products (Some ''exists'') = Fin 5"
    unfolding sum_avg_counted [OF kx, where read=read_member and this=mixed_products, THEN conjunct1]
    by (simp add: mixed_products_def product_def read_member_def counted_def sum_of_def double_defs)
  have ne: "mixed_products \<noteq> []" by (simp add: mixed_products_def)
  have a: "avg getProp mixed_products (Some ''price'') = Fin 2"
  proof -
    have "avg getProp mixed_products (Some ''price'')
        = num_div_pos (sum_coll getProp mixed_products (Some ''price'')) (length mixed_products)"
      using t [THEN conjunct2, THEN conjunct1] t [THEN conjunct1] ne by simp
    moreover have "length mixed_products = 5" by (simp add: mixed_products_def)
    ultimately show ?thesis by (simp add: s double_defs)
  qed
  have c': "map (\<lambda>item. counted (getProp item ''price'')) tenths
      = [Fin (3602879701896397 / 2 ^ 55), Fin (3602879701896397 / 2 ^ 54)]"
    by (simp add: tenths_def product_def getProp_def counted_def)
  have s': "sum_coll getProp tenths (Some ''price'') = Fin (5404319552844596 / 2 ^ 54)"
    unfolding u [THEN conjunct1] c' by (simp add: sum_of_def double_defs)
  have n': "sum_coll getProp tenths (Some ''price'') \<noteq> to_double (3 / 10)"
    unfolding s' num_add_rounds(3) by simp
  have a': "avg getProp tenths (Some ''price'') = Fin (5404319552844596 / 2 ^ 55)"
  proof -
    have "tenths \<noteq> []" by (simp add: tenths_def)
    then have "avg getProp tenths (Some ''price'')
        = num_div_pos (sum_coll getProp tenths (Some ''price'')) (length tenths)"
      using u [THEN conjunct2, THEN conjunct1] u [THEN conjunct1] by simp
    moreover have "length tenths = 2" by (simp add: tenths_def)
    ultimately show ?thesis by (simp add: s' double_defs)
  qed
  have e: "list_ex (\<lambda>item. counted (getProp item ''price'') = NaN) ?bad"
    by (simp add: product_def getProp_def counted_def abc)
  have n: "sum_coll getProp ?bad (Some ''price'') = NaN"
    using v e [unfolded list_ex_iff] by blast
  show ?thesis using k ne c i b s a s' n' a' e n x by (simp only: simp_thms)
qed

text \<open>
  Two values that are not numbers and are not coerced to 0: the string \<open>abc\<close> is
  truthy and \<open>Number\<close> makes it NaN, so the sum is NaN; \<open>true\<close> counts 1.
\<close>

theorem sum_non_numeric_counterexample:
  "sum_coll getProp [product [(''price'', Str ''abc'')]] (Some ''price'') = NaN
   \<and> claimed_sum getProp [product [(''price'', Str ''abc'')]] ''price'' = Fin 0
   \<and> sum_coll getProp [product [(''price'', Str ''abc'')]] (Some ''price'')
       \<noteq> claimed_sum getProp [product [(''price'', Str ''abc'')]] ''price''
   \<and> sum_coll getProp [product [(''active'', Bool True)]] (Some ''active'') = Fin 1
   \<and> claimed_sum getProp [product [(''active'', Bool True)]] ''active'' = Fin 0
   \<and> sum_coll getProp [product [(''active'', Bool True)]] (Some ''active'')
       \<noteq> claimed_sum getProp [product [(''active'', Bool True)]] ''active''"
  by (simp add: sum_coll_def no_key_def item_number_def getProp_def product_def or_zero_def truthy_def
      ToNumber_def claimed_sum_def sum_of_def coerced_to_zero_def double_defs
      StringToNumber_def trim_def is_ws_def non_decimal_def unsigned_decimal_def mantissa_part_def all_digits_def is_digit_def digit_of_def is_exp_mark_def exponent_part_def)

section \<open>Cloning a builder\<close>

lemmas step_defs = copy_columns_def copy_distinct_def copy_table_def copy_wheres_def copy_joins_def
  copy_orders_def copy_groups_def copy_havings_def copy_limit_def copy_offset_def copy_bindings_def copy_eagerLoad_def

lemma new_EnsembleBuilder_explicit:
  "new_EnsembleBuilder h ad m =
     (next_addr h + 8,
      \<lparr>cells = (cells h)
         (next_addr h := StrArray [''*''],
          next_addr h + 1 := WhereArray [],
          next_addr h + 2 := JoinArray [],
          next_addr h + 3 := OrderArray [],
          next_addr h + 4 := StrArray [],
          next_addr h + 5 := HavingArray [],
          next_addr h + 6 := ValueArray [],
          next_addr h + 7 := PlainObject [],
          next_addr h + 8 := BuilderObject
             \<lparr>b_adapter = ad, b_model = m, b_columns = next_addr h, b_distinct = False,
              b_table = table m, b_wheres = next_addr h + 1, b_joins = next_addr h + 2,
              b_orders = next_addr h + 3, b_groups = next_addr h + 4,
              b_havings = next_addr h + 5, b_limit = None, b_offset = None,
              b_bindings = next_addr h + 6, b_eagerLoad = next_addr h + 7\<rparr>),
       next_addr = next_addr h + 9\<rparr>)"
  by (simp add: new_EnsembleBuilder_def upd_def bld_def Builder_from_def Let_def)

lemma clone_explicit_raw:
  assumes "this < next_addr h" and "list_all (\<lambda>a. a < next_addr h) (refs (bld h this))"
  shows "clone h this =
    (next_addr h + 8,
     \<lparr>cells = (cells h)
        (next_addr h := StrArray [''*''],
         next_addr h + 1 := WhereArray [],
         next_addr h + 2 := JoinArray [],
         next_addr h + 3 := OrderArray [],
         next_addr h + 4 := StrArray [],
         next_addr h + 5 := HavingArray [],
         next_addr h + 6 := ValueArray [],
         next_addr h + 7 := PlainObject [],
         next_addr h + 9 := cells h (b_columns (bld h this)),
         next_addr h + 10 := cells h (b_wheres (bld h this)),
         next_addr h + 11 := cells h (b_joins (bld h this)),
         next_addr h + 12 := cells h (b_orders (bld h this)),
         next_addr h + 13 := cells h (b_groups (bld h this)),
         next_addr h + 14 := cells h (b_havings (bld h this)),
         next_addr h + 15 := cells h (b_bindings (bld h this)),
         next_addr h + 16 := cells h (b_eagerLoad (bld h this)),
         next_addr h + 8 := BuilderObject
           \<lparr>b_adapter = b_adapter (bld h this), b_model = b_model (bld h this),
            b_columns = next_addr h + 9, b_distinct = b_distinct (bld h this),
            b_table = b_table (bld h this), b_wheres = next_addr h + 10,
            b_joins = next_addr h + 11, b_orders = next_addr h + 12,
            b_groups = next_addr h + 13, b_havings = next_addr h + 14,
            b_limit = b_limit (bld h this), b_offset = b_offset (bld h this),
            b_bindings = next_addr h + 15, b_eagerLoad = next_addr h + 16\<rparr>),
      next_addr = next_addr h + 17\<rparr>)"
  using assms
  unfolding clone_def
  apply (simp only: new_EnsembleBuilder_explicit)
  apply (simp only: Let_def prod.case)
  apply (simp add: spread_def alloc_def upd_def bld_def refs_def step_defs)
  apply (rule ext)
  apply (simp add: fun_upd_def)
  done

lemma allocated_below:
  assumes "allocated h p"
  shows "p < next_addr h" and "\<And>a. a \<in> set (refs (bld h p)) \<Longrightarrow> a < next_addr h"
    and "p \<notin> set (refs (bld h p))"
  using assms by (auto simp: allocated_def list_all_iff)

lemma allocated_refs_below:
  assumes "allocated h p"
  shows "list_all (\<lambda>a. a < next_addr h) (refs (bld h p))"
  using assms by (auto simp: allocated_def list_all_iff)


text \<open>What a clone is, read off the explicit store.\<close>

lemma clone_facts:
  assumes "allocated h this" and "clone h this = (c, h')"
  shows "c = next_addr h + 8"
    and "next_addr h' = next_addr h + 17"
    and "\<And>a. a < next_addr h \<Longrightarrow> cells h' a = cells h a"
    and "snapshot h' c = snapshot h this"
    and "eagerLoads h' c = eagerLoads h this"
    and "b_model (bld h' c) = b_model (bld h this)"
    and "b_adapter (bld h' c) = b_adapter (bld h this)"
    and "refs (bld h' c) = map (\<lambda>k. next_addr h + k) [9, 10, 11, 12, 13, 14, 15, 16]"
proof -
  have e: "(c, h') = clone h this" using assms(2) by simp
  have c: "c = fst (clone h this)" and h': "h' = snd (clone h this)"
    using assms(2) by simp_all
  show c8: "c = next_addr h + 8" unfolding c clone_explicit_raw [OF allocated_below(1) [OF assms(1)] allocated_refs_below [OF assms(1)]] by simp
  show "next_addr h' = next_addr h + 17" unfolding h' clone_explicit_raw [OF allocated_below(1) [OF assms(1)] allocated_refs_below [OF assms(1)]] by simp
  show "\<And>a. a < next_addr h \<Longrightarrow> cells h' a = cells h a"
    unfolding h' clone_explicit_raw [OF allocated_below(1) [OF assms(1)] allocated_refs_below [OF assms(1)]] by simp
  have b: "bld h' c = \<lparr>b_adapter = b_adapter (bld h this), b_model = b_model (bld h this),
            b_columns = next_addr h + 9, b_distinct = b_distinct (bld h this),
            b_table = b_table (bld h this), b_wheres = next_addr h + 10,
            b_joins = next_addr h + 11, b_orders = next_addr h + 12,
            b_groups = next_addr h + 13, b_havings = next_addr h + 14,
            b_limit = b_limit (bld h this), b_offset = b_offset (bld h this),
            b_bindings = next_addr h + 15, b_eagerLoad = next_addr h + 16\<rparr>"
    unfolding c8 unfolding h' clone_explicit_raw [OF allocated_below(1) [OF assms(1)] allocated_refs_below [OF assms(1)]] by (simp add: bld_def)
  have cs: "cells h' (next_addr h + 9) = cells h (b_columns (bld h this))"
    "cells h' (next_addr h + 10) = cells h (b_wheres (bld h this))"
    "cells h' (next_addr h + 11) = cells h (b_joins (bld h this))"
    "cells h' (next_addr h + 12) = cells h (b_orders (bld h this))"
    "cells h' (next_addr h + 13) = cells h (b_groups (bld h this))"
    "cells h' (next_addr h + 14) = cells h (b_havings (bld h this))"
    "cells h' (next_addr h + 15) = cells h (b_bindings (bld h this))"
    "cells h' (next_addr h + 16) = cells h (b_eagerLoad (bld h this))"
    unfolding h' clone_explicit_raw [OF allocated_below(1) [OF assms(1)] allocated_refs_below [OF assms(1)]] by simp_all
  show "snapshot h' c = snapshot h this" by (simp add: snapshot_def b cs)
  show "eagerLoads h' c = eagerLoads h this" by (simp add: eagerLoads_def b cs)
  show "b_model (bld h' c) = b_model (bld h this)" by (simp add: b)
  show "b_adapter (bld h' c) = b_adapter (bld h this)" by (simp add: b)
  show "refs (bld h' c) = map (\<lambda>k. next_addr h + k) [9, 10, 11, 12, 13, 14, 15, 16]"
    by (simp add: b refs_def)
qed

lemma same_cells_same_builder:
  assumes "cells h' p = cells h p"
    and "\<And>a. a \<in> set (refs (bld h p)) \<Longrightarrow> cells h' a = cells h a"
  shows "bld h' p = bld h p" and "snapshot h' p = snapshot h p" and "eagerLoads h' p = eagerLoads h p"
proof -
  show b: "bld h' p = bld h p" using assms(1) by (simp add: bld_def)
  show "snapshot h' p = snapshot h p" using assms(2) b by (simp add: snapshot_def refs_def)
  show "eagerLoads h' p = eagerLoads h p" using assms(2) b by (simp add: eagerLoads_def refs_def)
qed

lemma clone_keeps_original:
  assumes "allocated h this" and "clone h this = (c, h')"
  shows "bld h' this = bld h this" and "snapshot h' this = snapshot h this"
    and "eagerLoads h' this = eagerLoads h this" and "allocated h' this" and "allocated h' c"
proof -
  have fr: "\<And>a. a < next_addr h \<Longrightarrow> cells h' a = cells h a"
    using clone_facts(3) [OF assms] .
  have c1: "cells h' this = cells h this" using fr allocated_below(1) [OF assms(1)] by simp
  have c2: "\<And>a. a \<in> set (refs (bld h this)) \<Longrightarrow> cells h' a = cells h a"
    using fr allocated_below(2) [OF assms(1)] by simp
  show b: "bld h' this = bld h this" using same_cells_same_builder(1) [OF c1 c2] .
  show "snapshot h' this = snapshot h this" using same_cells_same_builder(2) [OF c1 c2] .
  show "eagerLoads h' this = eagerLoads h this" using same_cells_same_builder(3) [OF c1 c2] .
  show "allocated h' this"
    using assms(1) b clone_facts(2) [OF assms] by (auto simp: allocated_def list_all_iff)
  show "allocated h' c"
    using clone_facts(1,2,8) [OF assms] by (simp add: allocated_def)
qed

lemma upd_simps:
  "next_addr (upd h p f) = next_addr h"
  "cells (upd h p f) a = (if a = p then BuilderObject (f (bld h p)) else cells h a)"
  "bld (upd h p f) q = (if q = p then f (bld h p) else bld h q)"
  by (simp_all add: upd_def bld_def)

text \<open>Setting offset and limit on a builder touches that builder's two scalars only.\<close>

lemma bounded_facts:
  fixes k n :: int
  assumes "allocated h c"
  defines "h' \<equiv> Builder_limit (Builder_offset h c k) c n"
  shows "snapshot h' c = (snapshot h c)\<lparr>q_limit := Some n, q_offset := Some k\<rparr>"
    and "b_model (bld h' c) = b_model (bld h c)"
    and "next_addr h' = next_addr h"
    and "\<And>a. a \<noteq> c \<Longrightarrow> cells h' a = cells h a"
    and "eagerLoads h' c = eagerLoads h c"
    and "refs (bld h' c) = refs (bld h c)"
proof -
  have nc: "c \<notin> set (refs (bld h c))" using allocated_below(3) [OF assms(1)] .
  show "snapshot h' c = (snapshot h c)\<lparr>q_limit := Some n, q_offset := Some k\<rparr>"
    using nc by (auto simp: h'_def Builder_limit_def Builder_offset_def upd_simps snapshot_def refs_def)
  show "b_model (bld h' c) = b_model (bld h c)"
    by (simp add: h'_def Builder_limit_def Builder_offset_def upd_simps)
  show "next_addr h' = next_addr h"
    by (simp add: h'_def Builder_limit_def Builder_offset_def upd_simps)
  show "\<And>a. a \<noteq> c \<Longrightarrow> cells h' a = cells h a"
    by (simp add: h'_def Builder_limit_def Builder_offset_def upd_simps)
  show "eagerLoads h' c = eagerLoads h c"
    using nc by (auto simp: h'_def Builder_limit_def Builder_offset_def upd_simps eagerLoads_def refs_def)
  show "refs (bld h' c) = refs (bld h c)"
    by (simp add: h'_def Builder_limit_def Builder_offset_def upd_simps refs_def)
qed

text \<open>One page fetch: clone, then offset and limit on the clone.\<close>

lemma page_fetch:
  fixes k n :: int
  assumes "allocated h this" and "clone h this = (c, h1)"
  defines "h3 \<equiv> Builder_limit (Builder_offset h1 c k) c n"
  shows "snapshot h3 c = (snapshot h this)\<lparr>q_limit := Some n, q_offset := Some k\<rparr>"
    and "b_model (bld h3 c) = b_model (bld h this)"
    and "allocated h3 this"
    and "bld h3 this = bld h this"
    and "snapshot h3 this = snapshot h this"
    and "eagerLoads h3 this = eagerLoads h this"
    and "next_addr h3 = next_addr h + 17"
    and "\<And>a. a < next_addr h \<Longrightarrow> cells h3 a = cells h a"
proof -
  note k = clone_keeps_original [OF assms(1,2)]
  note f = clone_facts [OF assms(1,2)]
  note b = bounded_facts [OF k(5), where k=k and n=n, folded h3_def]
  have lt: "this < next_addr h" using allocated_below(1) [OF assms(1)] .
  have ne: "this \<noteq> c" using f(1) lt by simp
  show "snapshot h3 c = (snapshot h this)\<lparr>q_limit := Some n, q_offset := Some k\<rparr>"
    using b(1) f(4) by simp
  show "b_model (bld h3 c) = b_model (bld h this)" using b(2) f(6) by simp
  show n17: "next_addr h3 = next_addr h + 17" using b(3) f(2) by simp
  show fr: "\<And>a. a < next_addr h \<Longrightarrow> cells h3 a = cells h a"
    using b(4) f(1) f(3) by simp
  have c1: "cells h3 this = cells h this" using fr lt by simp
  have c2: "\<And>a. a \<in> set (refs (bld h this)) \<Longrightarrow> cells h3 a = cells h a"
    using fr allocated_below(2) [OF assms(1)] by simp
  show bb: "bld h3 this = bld h this" using same_cells_same_builder(1) [OF c1 c2] .
  show "snapshot h3 this = snapshot h this" using same_cells_same_builder(2) [OF c1 c2] .
  show "eagerLoads h3 this = eagerLoads h this" using same_cells_same_builder(3) [OF c1 c2] .
  show "allocated h3 this"
    using assms(1) bb n17 by (auto simp: allocated_def list_all_iff)
qed

section \<open>Pagination\<close>

lemma users_builder_allocated: "allocated users_heap users_builder"
  by (simp add: users_heap_def users_builder_def new_EnsembleBuilder_explicit allocated_def bld_def refs_def)

lemma users_builder_snapshot:
  "snapshot users_heap users_builder =
     \<lparr>q_columns = [''*''], q_distinct = False, q_table = ''users'', q_wheres = [], q_joins = [],
      q_orders = [], q_groups = [], q_havings = [], q_limit = None, q_offset = None, q_bindings = []\<rparr>"
  by (simp add: users_heap_def users_builder_def new_EnsembleBuilder_explicit snapshot_def bld_def user_model_def)

lemma paginate_explicit:
  assumes "allocated h this"
  shows "fst (paginate db h this perPage page) =
     \<lparr>p_data = hydrate (b_model (bld h this))
         (take (nat perPage) (drop (nat ((page - 1) * perPage)) (db (unbounded (snapshot h this))))),
      p_total = int (length (db (unbounded (snapshot h this)))),
      p_perPage = perPage, p_currentPage = page,
      p_lastPage = Math_ceil_quotient (int (length (db (unbounded (snapshot h this))))) perPage,
      p_from = (if 0 < int (length (db (unbounded (snapshot h this)))) then (page - 1) * perPage + 1 else 0),
      p_to = min ((page - 1) * perPage + perPage) (int (length (db (unbounded (snapshot h this)))))\<rparr>"
    and "snd (snd (paginate db h this perPage page)) =
     [CountQuery (snapshot h this),
      SelectQuery ((snapshot h this)\<lparr>q_limit := Some perPage, q_offset := Some ((page - 1) * perPage)\<rparr>)]"
    and "snapshot (fst (snd (paginate db h this perPage page))) this = snapshot h this"
    and "eagerLoads (fst (snd (paginate db h this perPage page))) this = eagerLoads h this"
    and "snapshot (fst (snd (paginate db h this perPage page))) (next_addr h + 8) = snapshot h this"
    and "snapshot (fst (snd (paginate db h this perPage page))) (next_addr h + 25) =
           (snapshot h this)\<lparr>q_limit := Some perPage, q_offset := Some ((page - 1) * perPage)\<rparr>"
proof -
  obtain c1 h1 where cl1: "clone h this = (c1, h1)" by (cases "clone h this")
  note k1 = clone_keeps_original [OF assms cl1]
  note f1 = clone_facts [OF assms cl1]
  obtain c2 h2 where cl2: "clone h1 this = (c2, h2)" by (cases "clone h1 this")
  define h4 where "h4 = Builder_limit (Builder_offset h2 c2 ((page - 1) * perPage)) c2 perPage"
  note pf = page_fetch [OF k1(4) cl2, where k="(page - 1) * perPage" and n=perPage, folded h4_def]
  note f2 = clone_facts [OF k1(4) cl2]
  have q4: "snapshot h4 c2 = (snapshot h this)\<lparr>q_limit := Some perPage, q_offset := Some ((page - 1) * perPage)\<rparr>"
    using pf(1) k1(2) by simp
  have m4: "b_model (bld h4 c2) = b_model (bld h this)" using pf(2) k1(1) by simp
  have p: "paginate db h this perPage page =
     (\<lparr>p_data = EnsembleBuilder_get db h4 c2,
       p_total = Builder_count db h1 c1, p_perPage = perPage, p_currentPage = page,
       p_lastPage = Math_ceil_quotient (Builder_count db h1 c1) perPage,
       p_from = (if Builder_count db h1 c1 > 0 then (page - 1) * perPage + 1 else 0),
       p_to = min ((page - 1) * perPage + perPage) (Builder_count db h1 c1)\<rparr>,
      h4, [CountQuery (snapshot h1 c1), SelectQuery (snapshot h4 c2)])"
    unfolding paginate_def cl1 prod.case Let_def cl2 h4_def by simp
  have cnt: "Builder_count db h1 c1 = int (length (db (unbounded (snapshot h this))))"
    by (simp add: Builder_count_def f1(4))
  have get: "EnsembleBuilder_get db h4 c2 = hydrate (b_model (bld h this))
         (take (nat perPage) (drop (nat ((page - 1) * perPage)) (db (unbounded (snapshot h this)))))"
    by (simp add: EnsembleBuilder_get_def Builder_get_def q4 m4 slice_rows_def unbounded_def)
  show "fst (paginate db h this perPage page) =
     \<lparr>p_data = hydrate (b_model (bld h this))
         (take (nat perPage) (drop (nat ((page - 1) * perPage)) (db (unbounded (snapshot h this))))),
      p_total = int (length (db (unbounded (snapshot h this)))),
      p_perPage = perPage, p_currentPage = page,
      p_lastPage = Math_ceil_quotient (int (length (db (unbounded (snapshot h this))))) perPage,
      p_from = (if 0 < int (length (db (unbounded (snapshot h this)))) then (page - 1) * perPage + 1 else 0),
      p_to = min ((page - 1) * perPage + perPage) (int (length (db (unbounded (snapshot h this)))))\<rparr>"
    unfolding p fst_conv cnt get by simp
  show "snd (snd (paginate db h this perPage page)) =
     [CountQuery (snapshot h this),
      SelectQuery ((snapshot h this)\<lparr>q_limit := Some perPage, q_offset := Some ((page - 1) * perPage)\<rparr>)]"
    unfolding p snd_conv q4 f1(4) by simp
  show "snapshot (fst (snd (paginate db h this perPage page))) this = snapshot h this"
    unfolding p snd_conv fst_conv using pf(5) k1(2) by simp
  show "eagerLoads (fst (snd (paginate db h this perPage page))) this = eagerLoads h this"
    unfolding p snd_conv fst_conv using pf(6) k1(3) by simp
  have c1: "c1 = next_addr h + 8" using f1(1) .
  have c2: "c2 = next_addr h + 25" using f2(1) f1(2) by simp
  show "snapshot (fst (snd (paginate db h this perPage page))) (next_addr h + 25) =
           (snapshot h this)\<lparr>q_limit := Some perPage, q_offset := Some ((page - 1) * perPage)\<rparr>"
    unfolding p snd_conv fst_conv using q4 c2 by simp
  have a1: "cells h4 c1 = cells h1 c1"
    using pf(8) [of c1] allocated_below(1) [OF k1(5)] by simp
  have a2: "\<And>a. a \<in> set (refs (bld h1 c1)) \<Longrightarrow> cells h4 a = cells h1 a"
    using pf(8) allocated_below(2) [OF k1(5)] by simp
  have "snapshot h4 c1 = snapshot h1 c1" using same_cells_same_builder(2) [OF a1 a2] .
  then show "snapshot (fst (snd (paginate db h this perPage page))) (next_addr h + 8) = snapshot h this"
    unfolding p snd_conv fst_conv using f1(4) c1 by simp
qed

lemma take_to_from:
  fixes off n :: int
  assumes "0 \<le> off" and "0 \<le> n"
  shows "take (nat (min (off + n) (int (length rows)) - (off + 1) + 1)) (drop (nat (off + 1 - 1)) rows)
       = take (nat n) (drop (nat off) rows)"
proof (cases "off + n \<le> int (length rows)")
  case True
  then show ?thesis by (simp add: min_def)
next
  case False
  then have "nat (min (off + n) (int (length rows)) - (off + 1) + 1) = length rows - nat off"
    using assms by (simp add: min_def nat_diff_distrib')
  moreover have "length rows - nat off \<le> nat n" using False assms by linarith
  ultimately show ?thesis by simp
qed

text \<open>
  Claim C2. For integers \<open>perPage \<ge> 1\<close> and \<open>page \<ge> 1\<close> on a well-formed builder,
  \<open>paginate\<close> sends a count query and then a select with offset
  \<open>(page - 1) * perPage\<close> and limit \<open>perPage\<close>, each on a clone of its own (the first
  clone keeps the query of the builder, the second carries the bounds, the builder
  itself is left as it was). The result holds the total, \<open>perPage\<close>, \<open>page\<close> as the
  current page, the ceiling of \<open>total / perPage\<close> as the last page, 0 for \<open>from\<close> and
  \<open>to\<close> when the total is 0, and otherwise the positions, counted from 1, of the first
  and last row of the page: the data are the records of the rows \<open>from\<close> to \<open>to\<close>.
  With 25 rows, \<open>paginate(10, 2)\<close> gives last page 3, from 11, to 20 and 10 records.
\<close>

theorem paginate_page:
  assumes "allocated h this" and "1 \<le> perPage" and "1 \<le> page"
    and "paginate db h this perPage page = (r, h', queries)"
  shows "p_total r = int (length (db (unbounded (snapshot h this))))
    \<and> p_perPage r = perPage \<and> p_currentPage r = page
    \<and> p_lastPage r = Fin (of_int \<lceil>real_of_int (p_total r) / real_of_int perPage\<rceil>)
    \<and> (p_total r = 0 \<longrightarrow> p_from r = 0 \<and> p_to r = 0 \<and> p_data r = [])
    \<and> (0 < p_total r \<longrightarrow>
          p_from r = (page - 1) * perPage + 1 \<and> p_to r = min (page * perPage) (p_total r)
          \<and> p_data r = hydrate (b_model (bld h this))
               (take (nat (p_to r - p_from r + 1))
                  (drop (nat (p_from r - 1)) (db (unbounded (snapshot h this))))))
    \<and> queries =
         [CountQuery (snapshot h this),
          SelectQuery ((snapshot h this)\<lparr>q_limit := Some perPage, q_offset := Some ((page - 1) * perPage)\<rparr>)]
    \<and> snapshot h' (next_addr h + 8) = snapshot h this
    \<and> snapshot h' (next_addr h + 25) =
          (snapshot h this)\<lparr>q_limit := Some perPage, q_offset := Some ((page - 1) * perPage)\<rparr>
    \<and> snapshot h' this = snapshot h this \<and> eagerLoads h' this = eagerLoads h this
    \<and> (p_total r = 25 \<and> perPage = 10 \<and> page = 2 \<longrightarrow>
          p_lastPage r = Fin 3 \<and> p_from r = 11 \<and> p_to r = 20 \<and> length (p_data r) = 10)"
proof -
  define rows where "rows = db (unbounded (snapshot h this))"
  define off where "off = (page - 1) * perPage"
  have off0: "0 \<le> off" using assms(2,3) by (simp add: off_def)
  have r: "r = fst (paginate db h this perPage page)"
    and h': "h' = fst (snd (paginate db h this perPage page))"
    and qs: "queries = snd (snd (paginate db h this perPage page))"
    using assms(4) by simp_all
  note e = paginate_explicit [OF assms(1), of db perPage page, folded r h' qs rows_def off_def]
  have total: "p_total r = int (length rows)" and pp: "p_perPage r = perPage"
    and cp: "p_currentPage r = page"
    and lp: "p_lastPage r = Math_ceil_quotient (int (length rows)) perPage"
    and fr: "p_from r = (if 0 < int (length rows) then off + 1 else 0)"
    and to: "p_to r = min (off + perPage) (int (length rows))"
    and data: "p_data r = hydrate (b_model (bld h this)) (take (nat perPage) (drop (nat off) rows))"
    unfolding e(1) by simp_all
  have last: "p_lastPage r = Fin (of_int \<lceil>real_of_int (p_total r) / real_of_int perPage\<rceil>)"
    using assms(2) by (simp add: lp total Math_ceil_quotient_def)
  have opp: "off + perPage = page * perPage" by (simp add: off_def algebra_simps)
  have empty: "p_total r = 0 \<longrightarrow> p_from r = 0 \<and> p_to r = 0 \<and> p_data r = []"
    using assms(2) off0 by (simp add: total fr to data hydrate_def)
  have window: "0 < p_total r \<longrightarrow>
          p_from r = (page - 1) * perPage + 1 \<and> p_to r = min (page * perPage) (p_total r)
          \<and> p_data r = hydrate (b_model (bld h this))
               (take (nat (p_to r - p_from r + 1)) (drop (nat (p_from r - 1)) rows))"
  proof
    assume pos: "0 < p_total r"
    then have f: "p_from r = off + 1" by (simp add: fr total)
    have "take (nat (p_to r - p_from r + 1)) (drop (nat (p_from r - 1)) rows)
        = take (nat perPage) (drop (nat off) rows)"
      unfolding f to using take_to_from [OF off0, of perPage rows] assms(2) by simp
    then show "p_from r = (page - 1) * perPage + 1 \<and> p_to r = min (page * perPage) (p_total r)
          \<and> p_data r = hydrate (b_model (bld h this))
               (take (nat (p_to r - p_from r + 1)) (drop (nat (p_from r - 1)) rows))"
      using f opp by (simp add: to total data off_def)
  qed
  have example: "p_total r = 25 \<and> perPage = 10 \<and> page = 2 \<longrightarrow>
          p_lastPage r = Fin 3 \<and> p_from r = 11 \<and> p_to r = 20 \<and> length (p_data r) = 10"
    by (auto simp: last fr to data total off_def hydrate_def)
  show ?thesis
    using total pp cp last empty window example e(2,3,4,5,6)
    by (simp add: rows_def off_def)
qed

theorem paginate_page_witness:
  "allocated users_heap users_builder \<and> (1::int) \<le> 10 \<and> (1::int) \<le> 2
   \<and> p_total (fst (paginate (\<lambda>q. numbered_rows 25) users_heap users_builder 10 2)) = 25
   \<and> p_perPage (fst (paginate (\<lambda>q. numbered_rows 25) users_heap users_builder 10 2)) = 10
   \<and> p_currentPage (fst (paginate (\<lambda>q. numbered_rows 25) users_heap users_builder 10 2)) = 2
   \<and> p_lastPage (fst (paginate (\<lambda>q. numbered_rows 25) users_heap users_builder 10 2)) = Fin 3
   \<and> p_from (fst (paginate (\<lambda>q. numbered_rows 25) users_heap users_builder 10 2)) = 11
   \<and> p_to (fst (paginate (\<lambda>q. numbered_rows 25) users_heap users_builder 10 2)) = 20
   \<and> length (p_data (fst (paginate (\<lambda>q. numbered_rows 25) users_heap users_builder 10 2))) = 10
   \<and> p_total (fst (paginate (\<lambda>q. []) users_heap users_builder 10 2)) = 0
   \<and> p_from (fst (paginate (\<lambda>q. []) users_heap users_builder 10 2)) = 0
   \<and> p_to (fst (paginate (\<lambda>q. []) users_heap users_builder 10 2)) = 0"
proof -
  let ?p = "paginate (\<lambda>q. numbered_rows 25) users_heap users_builder 10 2"
  let ?e = "paginate (\<lambda>q. []) users_heap users_builder 10 2"
  have len: "length (numbered_rows 25) = 25" by (simp add: numbered_rows_def)
  have eq: "?p = (fst ?p, fst (snd ?p), snd (snd ?p))" by simp
  have eq0: "?e = (fst ?e, fst (snd ?e), snd (snd ?e))" by simp
  have a: "(1::int) \<le> 10" and b: "(1::int) \<le> 2" by simp_all
  note t = paginate_page [OF users_builder_allocated a b eq]
  note t0 = paginate_page [OF users_builder_allocated a b eq0]
  have total: "p_total (fst ?p) = 25" using t len by simp
  have total0: "p_total (fst ?e) = 0" using t0 by simp
  have zero: "p_from (fst ?e) = 0 \<and> p_to (fst ?e) = 0" using t0 total0 by simp
  show ?thesis using t total total0 zero users_builder_allocated by (simp add: hydrate_def len)
qed

text \<open>
  Claim C10. When the total is positive, \<open>from\<close> is \<open>(page - 1) * perPage + 1\<close>
  whatever the page, and \<open>to\<close> is the smaller of \<open>page * perPage\<close> and the total; so
  for a page beyond the last (\<open>(page - 1) * perPage \<ge> total\<close>) the data are empty and
  \<open>from\<close> is greater than both \<open>to\<close> and the total.
\<close>

theorem paginate_beyond_last_page:
  assumes "allocated h this" and "0 < length (db (unbounded (snapshot h this)))"
    and "paginate db h this perPage page = (r, h', queries)"
  shows "p_from r = (page - 1) * perPage + 1
    \<and> p_to r = min (page * perPage) (p_total r)
    \<and> p_total r = int (length (db (unbounded (snapshot h this))))
    \<and> (p_total r \<le> (page - 1) * perPage \<longrightarrow>
          p_data r = [] \<and> p_to r < p_from r \<and> p_total r < p_from r)"
proof -
  have r: "r = fst (paginate db h this perPage page)" using assms(3) by simp
  note e = paginate_explicit(1) [OF assms(1), of db perPage page, folded r]
  have "(page - 1) * perPage + perPage = page * perPage" by (simp add: algebra_simps)
  then show ?thesis using assms(2) unfolding e by (auto simp: hydrate_def)
qed

theorem paginate_beyond_last_page_witness:
  "allocated users_heap users_builder
   \<and> 0 < length ((\<lambda>q. numbered_rows 25) (unbounded (snapshot users_heap users_builder)))
   \<and> p_from (fst (paginate (\<lambda>q. numbered_rows 25) users_heap users_builder 10 4)) = 31
   \<and> p_to (fst (paginate (\<lambda>q. numbered_rows 25) users_heap users_builder 10 4)) = 25
   \<and> p_total (fst (paginate (\<lambda>q. numbered_rows 25) users_heap users_builder 10 4)) = 25
   \<and> p_data (fst (paginate (\<lambda>q. numbered_rows 25) users_heap users_builder 10 4)) = []"
proof -
  let ?p = "paginate (\<lambda>q. numbered_rows 25) users_heap users_builder 10 4"
  have len: "length (numbered_rows 25) = 25" by (simp add: numbered_rows_def)
  have pos: "0 < length ((\<lambda>q. numbered_rows 25) (unbounded (snapshot users_heap users_builder)))"
    using len by simp
  have eq: "?p = (fst ?p, fst (snd ?p), snd (snd ?p))" by simp
  note t = paginate_beyond_last_page [OF users_builder_allocated pos eq]
  have total: "p_total (fst ?p) = 25" using t len by simp
  show ?thesis using t total pos users_builder_allocated by (simp add: hydrate_def len)
qed

section \<open>Chunked iteration\<close>

lemma page_count_le_iff:
  assumes "1 \<le> cnt"
  shows "(page_count cnt rows \<le> i) = (length rows \<le> i * nat cnt)"
proof -
  have n: "0 < nat cnt" using assms by simp
  have "(page_count cnt rows \<le> i) = ((length rows + nat cnt - 1) div nat cnt < Suc i)"
    by (simp add: page_count_def less_Suc_eq_le)
  also have "\<dots> = (length rows + nat cnt - 1 < Suc i * nat cnt)"
    using n by (simp only: div_less_iff_less_mult)
  also have "\<dots> = (length rows \<le> i * nat cnt)" using n by auto
  finally show ?thesis .
qed

lemma page_rows_empty_iff:
  assumes "1 \<le> cnt"
  shows "(page_rows cnt rows i = []) = (page_count cnt rows \<le> i)"
  using assms by (simp add: page_count_le_iff page_rows_def)

lemma hydrate_empty_iff: "(hydrate m rows = []) = (rows = [])"
  by (simp add: hydrate_def)

text \<open>One turn of the loop: the page fetched, and the builder as it was.\<close>

lemma chunk_fetch:
  fixes i :: nat
  assumes "allocated h this" and "0 \<le> cnt" and "clone h this = (c, h1)"
  defines "h3 \<equiv> Builder_limit (Builder_offset h1 c (int i * cnt)) c cnt"
  shows "EnsembleBuilder_get db h3 c =
           hydrate (b_model (bld h this)) (page_rows cnt (db (unbounded (snapshot h this))) i)"
    and "snapshot h3 c = page_query (snapshot h this) cnt i"
    and "allocated h3 this" and "bld h3 this = bld h this"
    and "snapshot h3 this = snapshot h this" and "eagerLoads h3 this = eagerLoads h this"
proof -
  note pf = page_fetch [OF assms(1) assms(3), where k="int i * cnt" and n=cnt, folded h3_def]
  show q: "snapshot h3 c = page_query (snapshot h this) cnt i"
    using pf(1) by (simp add: page_query_def)
  have n: "nat (int i * cnt) = i * nat cnt" using assms(2) by (simp add: nat_mult_distrib)
  show "EnsembleBuilder_get db h3 c =
           hydrate (b_model (bld h this)) (page_rows cnt (db (unbounded (snapshot h this))) i)"
    by (simp add: EnsembleBuilder_get_def Builder_get_def q pf(2) page_query_def slice_rows_def
        unbounded_def page_rows_def n)
  show "allocated h3 this" "bld h3 this = bld h this" "snapshot h3 this = snapshot h this"
    "eagerLoads h3 this = eagerLoads h this"
    using pf(3,4,5,6) by simp_all
qed

lemma chunk_loop_runs:
  assumes "1 \<le> cnt"
  shows "allocated h this \<Longrightarrow> page_count cnt (db (unbounded (snapshot h this))) - i = k \<Longrightarrow>
    \<exists>h'. chunk_loop db callback this cnt (int i + 1, h, s, events) =
        Some (h',
          snd (chunk_spec callback (page_query (snapshot h this) cnt) s i (pages_from db h this cnt i)),
          events @ fst (chunk_spec callback (page_query (snapshot h this) cnt) s i (pages_from db h this cnt i)))
      \<and> snapshot h' this = snapshot h this \<and> eagerLoads h' this = eagerLoads h this"
proof (induction k arbitrary: i h s events)
  case 0
  obtain c h1 where cl: "clone h this = (c, h1)" by (cases "clone h this")
  define h3 where "h3 = Builder_limit (Builder_offset h1 c (int i * cnt)) c cnt"
  have c0: "0 \<le> cnt" using assms by simp
  note f = chunk_fetch [OF "0.prems"(1) c0 cl, where i=i, folded h3_def]
  note g = chunk_fetch(1) [OF "0.prems"(1) c0 cl, where i=i and db=db, folded h3_def]
  have finished: "page_count cnt (db (unbounded (snapshot h this))) \<le> i" using "0.prems"(2) by simp
  then have empty: "EnsembleBuilder_get db h3 c = []"
    by (simp add: g page_rows_empty_iff [OF assms] hydrate_def)
  have pages: "pages_from db h this cnt i = []" using finished by (simp add: pages_from_def)
  have "chunk_loop db callback this cnt (int i + 1, h, s, events) =
      Some (h3, s, events @ [Fetched (page_query (snapshot h this) cnt i)])"
    by (subst chunk_loop.simps) (simp add: cl Let_def h3_def [symmetric] empty f(2))
  then show ?case using pages f(5,6) by simp
next
  case (Suc k)
  obtain c h1 where cl: "clone h this = (c, h1)" by (cases "clone h this")
  define h3 where "h3 = Builder_limit (Builder_offset h1 c (int i * cnt)) c cnt"
  define results where "results = hydrate (b_model (bld h this)) (page_rows cnt (db (unbounded (snapshot h this))) i)"
  have c0: "0 \<le> cnt" using assms by simp
  note f = chunk_fetch [OF Suc.prems(1) c0 cl, where i=i, folded h3_def]
  note g = chunk_fetch(1) [OF Suc.prems(1) c0 cl, where i=i and db=db, folded h3_def results_def]
  have remaining: "i < page_count cnt (db (unbounded (snapshot h this)))" using Suc.prems(2) by simp
  then have nonempty: "results \<noteq> []"
    by (simp add: results_def hydrate_def page_rows_empty_iff [OF assms])
  have pages: "pages_from db h this cnt i = results # pages_from db h this cnt (Suc i)"
    using remaining by (simp add: pages_from_def upt_conv_Cons results_def)
  obtain r s' where cb: "callback s results = (r, s')" by (cases "callback s results")
  have step: "chunk_loop db callback this cnt (int i + 1, h, s, events) =
      (if r = Some False
       then Some (h3, s', (events @ [Fetched (page_query (snapshot h this) cnt i)]) @ [Called results])
       else chunk_loop db callback this cnt
              (int (Suc i) + 1, h3, s', (events @ [Fetched (page_query (snapshot h this) cnt i)]) @ [Called results]))"
    by (subst chunk_loop.simps) (simp add: cl Let_def h3_def [symmetric] g f(2) nonempty cb)
  show ?case
  proof (cases "r = Some False")
    case True
    then show ?thesis using step pages cb f(5,6) by simp
  next
    case False
    have left: "page_count cnt (db (unbounded (snapshot h3 this))) - Suc i = k"
      using Suc.prems(2) f(5) by simp
    have same: "pages_from db h3 this cnt (Suc i) = pages_from db h this cnt (Suc i)"
      by (simp add: pages_from_def f(4,5))
    from Suc.IH [OF f(3) left, of s' "(events @ [Fetched (page_query (snapshot h this) cnt i)]) @ [Called results]"]
    obtain h' where run: "chunk_loop db callback this cnt
              (int (Suc i) + 1, h3, s', (events @ [Fetched (page_query (snapshot h this) cnt i)]) @ [Called results]) =
        Some (h',
          snd (chunk_spec callback (page_query (snapshot h this) cnt) s' (Suc i) (pages_from db h this cnt (Suc i))),
          ((events @ [Fetched (page_query (snapshot h this) cnt i)]) @ [Called results])
            @ fst (chunk_spec callback (page_query (snapshot h this) cnt) s' (Suc i) (pages_from db h this cnt (Suc i))))"
      and keep: "snapshot h' this = snapshot h this" "eagerLoads h' this = eagerLoads h this"
      unfolding same f(5) f(6) by blast
    show ?thesis
      using step False run keep pages cb by (simp add: split_beta)
  qed
qed

lemma chunk_spec_never_false:
  assumes "\<And>t p. fst (callback t p) \<noteq> Some False"
  shows "calls_of (fst (chunk_spec callback fq s i ps)) = ps
    \<and> fetches_of (fst (chunk_spec callback fq s i ps)) = map fq [i..<Suc (i + length ps)]"
proof (induction ps arbitrary: s i)
  case Nil
  show ?case by (simp add: calls_of_def fetches_of_def)
next
  case (Cons p ps)
  obtain r s' where cb: "callback s p = (r, s')" by (cases "callback s p")
  have nf: "r \<noteq> Some False" using assms [of s p] cb by simp
  obtain ev s'' where sp: "chunk_spec callback fq s' (Suc i) ps = (ev, s'')"
    by (cases "chunk_spec callback fq s' (Suc i) ps")
  have ih: "calls_of ev = ps \<and> fetches_of ev = map fq [Suc i..<Suc (Suc i + length ps)]"
    using Cons.IH [of s' "Suc i"] sp by simp
  have e: "[i..<Suc (Suc i + length ps)] = i # [Suc i..<Suc (Suc i + length ps)]"
    by (rule upt_conv_Cons) simp
  have l: "Suc (i + length (p # ps)) = Suc (Suc i + length ps)" by simp
  have c: "calls_of (fst (chunk_spec callback fq s i (p # ps))) = p # calls_of ev"
    and f: "fetches_of (fst (chunk_spec callback fq s i (p # ps))) = fq i # fetches_of ev"
    using cb nf sp by (simp_all add: calls_of_def fetches_of_def)
  show ?case unfolding c f l using ih e by (simp only: list.map)
qed

lemma pages_of_twelve_by_five:
  assumes "length (db (unbounded (snapshot h this))) = 12"
  shows "map length (pages_from db h this 5 0) = [5, 5, 2]"
proof -
  have "page_count 5 (db (unbounded (snapshot h this))) = 3"
    using assms by (simp add: page_count_def)
  moreover have "[0..<3] = [0, 1, 2]" by (simp add: upt_conv_Cons numeral_3_eq_3)
  ultimately show ?thesis
    using assms by (simp add: pages_from_def page_rows_def hydrate_def)
qed

text \<open>
  Claim C3. For a chunk size of at least 1 on a well-formed builder, \<open>chunk\<close> returns,
  and what it did is what \<open>chunk_spec\<close> says on the pages of the row set: for page
  1, 2, ... a fetch on a fresh clone with offset \<open>(page - 1) * size\<close> and limit
  \<open>size\<close>, the callback once on every page that holds a row, and the end at the first
  empty page or the first \<open>false\<close> of the callback; the builder itself is left as it
  was. With a callback that never returns \<open>false\<close> the pages called are all pages that
  hold a row, and one more fetch finds the empty page. Over 12 rows with size 5 the
  callback is called three times, on 5, 5 and 2 records, and the fourth fetch ends the
  iteration.
\<close>

theorem chunk_pages:
  assumes "allocated h this" and "1 \<le> cnt"
  shows "\<exists>h' s' events.
      chunk db h this cnt callback s = Some (h', s', events)
    \<and> (events, s') = chunk_spec callback (page_query (snapshot h this) cnt) s 0 (pages_from db h this cnt 0)
    \<and> snapshot h' this = snapshot h this \<and> eagerLoads h' this = eagerLoads h this
    \<and> ((\<forall>t p. fst (callback t p) \<noteq> Some False) \<longrightarrow>
          calls_of events = pages_from db h this cnt 0
          \<and> fetches_of events = map (page_query (snapshot h this) cnt)
               [0..<Suc (page_count cnt (db (unbounded (snapshot h this))))])
    \<and> ((\<forall>t p. fst (callback t p) \<noteq> Some False)
          \<and> length (db (unbounded (snapshot h this))) = 12 \<and> cnt = 5 \<longrightarrow>
          map length (calls_of events) = [5, 5, 2] \<and> length (fetches_of events) = 4)"
proof -
  let ?spec = "chunk_spec callback (page_query (snapshot h this) cnt) s 0 (pages_from db h this cnt 0)"
  from chunk_loop_runs [OF assms(2) assms(1) refl, where db=db and i=0 and callback=callback and s=s and events="[]"]
  obtain h' where run: "chunk db h this cnt callback s = Some (h', snd ?spec, fst ?spec)"
    and keep: "snapshot h' this = snapshot h this" "eagerLoads h' this = eagerLoads h this"
    by (auto simp: chunk_def)
  have len: "length (pages_from db h this cnt 0) = page_count cnt (db (unbounded (snapshot h this)))"
    by (simp add: pages_from_def)
  have all: "(\<forall>t p. fst (callback t p) \<noteq> Some False) \<longrightarrow>
          calls_of (fst ?spec) = pages_from db h this cnt 0
          \<and> fetches_of (fst ?spec) = map (page_query (snapshot h this) cnt)
               [0..<Suc (page_count cnt (db (unbounded (snapshot h this))))]"
    using chunk_spec_never_false [of callback "page_query (snapshot h this) cnt" s 0 "pages_from db h this cnt 0"]
    by (simp add: len)
  have ex: "(\<forall>t p. fst (callback t p) \<noteq> Some False)
          \<and> length (db (unbounded (snapshot h this))) = 12 \<and> cnt = 5 \<longrightarrow>
          map length (calls_of (fst ?spec)) = [5, 5, 2] \<and> length (fetches_of (fst ?spec)) = 4"
  proof
    assume a: "(\<forall>t p. fst (callback t p) \<noteq> Some False)
          \<and> length (db (unbounded (snapshot h this))) = 12 \<and> cnt = 5"
    then have "page_count cnt (db (unbounded (snapshot h this))) = 3" by (simp add: page_count_def)
    then show "map length (calls_of (fst ?spec)) = [5, 5, 2] \<and> length (fetches_of (fst ?spec)) = 4"
      using all a pages_of_twelve_by_five [of db h this] by simp
  qed
  show ?thesis using run keep all ex by simp
qed

theorem chunk_pages_witness:
  "allocated users_heap users_builder \<and> (1::int) \<le> 5
   \<and> (\<forall>t p. fst ((\<lambda>(n::nat) (p::ensemble list). (None :: bool option, Suc n)) t p) \<noteq> Some False)
   \<and> length ((\<lambda>q. numbered_rows 12) (unbounded (snapshot users_heap users_builder))) = 12
   \<and> map length (calls_of (snd (snd (the (chunk (\<lambda>q. numbered_rows 12) users_heap users_builder 5
          (\<lambda>(n::nat) p. (None, Suc n)) 0))))) = [5, 5, 2]
   \<and> length (fetches_of (snd (snd (the (chunk (\<lambda>q. numbered_rows 12) users_heap users_builder 5
          (\<lambda>(n::nat) p. (None, Suc n)) 0))))) = 4"
proof -
  let ?db = "\<lambda>q::query_state. numbered_rows 12"
  let ?cb = "\<lambda>(n::nat) (p::ensemble list). (None :: bool option, Suc n)"
  have five: "(1::int) \<le> 5" by simp
  have len: "length (?db (unbounded (snapshot users_heap users_builder))) = 12"
    by (simp add: numbered_rows_def)
  have never: "\<forall>t p. fst (?cb t p) \<noteq> Some False" by simp
  have "\<exists>h' s' events.
      chunk ?db users_heap users_builder 5 ?cb 0 = Some (h', s', events)
      \<and> map length (calls_of events) = [5, 5, 2] \<and> length (fetches_of events) = 4"
    using chunk_pages [OF users_builder_allocated five, of ?db ?cb 0] never len
    apply (elim exE conjE) apply (intro exI conjI) apply assumption apply simp apply simp done
  then show ?thesis using users_builder_allocated len by auto
qed

section \<open>A clone shares no state\<close>

lemma update_cell_simps:
  "next_addr (update_cell h a f) = next_addr h"
  "cells (update_cell h a f) b = (if b = a then f (cells h a) else cells h b)"
  by (simp_all add: update_cell_def)

lemma bld_update_cell: "a \<noteq> p \<Longrightarrow> bld (update_cell h a f) p = bld h p"
  by (simp add: bld_def update_cell_simps)

text \<open>
  A write to one of a builder's own arrays, or to one of its scalars, stays within the
  builder and what it refers to, and leaves its references as they were.
\<close>

lemma with_relations_frame:
  assumes "b_eagerLoad (bld h this) \<noteq> this"
  shows "next_addr (with_relations h this r) = next_addr h
    \<and> bld (with_relations h this r) this = bld h this
    \<and> (\<forall>a. a \<noteq> b_eagerLoad (bld h this) \<longrightarrow> cells (with_relations h this r) a = cells h a)"
proof -
  have "\<And>h. b_eagerLoad (bld h this) \<noteq> this \<Longrightarrow>
      next_addr (foldl (\<lambda>h relation. update_cell h (b_eagerLoad (bld h this))
              (\<lambda>c. PlainObject (set_entry (the_entries c) relation Noop))) h rs) = next_addr h
    \<and> bld (foldl (\<lambda>h relation. update_cell h (b_eagerLoad (bld h this))
              (\<lambda>c. PlainObject (set_entry (the_entries c) relation Noop))) h rs) this = bld h this
    \<and> (\<forall>a. a \<noteq> b_eagerLoad (bld h this) \<longrightarrow>
          cells (foldl (\<lambda>h relation. update_cell h (b_eagerLoad (bld h this))
              (\<lambda>c. PlainObject (set_entry (the_entries c) relation Noop))) h rs) a = cells h a)" for rs
  proof (induction rs)
    case Nil
    show ?case by simp
  next
    case (Cons x xs)
    let ?h = "update_cell h (b_eagerLoad (bld h this))
              (\<lambda>c. PlainObject (set_entry (the_entries c) x Noop))"
    have b: "bld ?h this = bld h this" using Cons.prems by (simp add: bld_update_cell)
    then have "b_eagerLoad (bld ?h this) \<noteq> this" using Cons.prems by simp
    from Cons.IH [OF this] show ?case by (simp add: b update_cell_simps)
  qed
  then show ?thesis using assms by (simp add: with_relations_def Let_def)
qed

lemma mutate_frame:
  assumes "this \<notin> set (refs (bld h this))"
  shows "next_addr (mutate h this m) = next_addr h"
    and "refs (bld (mutate h this m) this) = refs (bld h this)"
    and "\<And>a. a \<noteq> this \<Longrightarrow> a \<notin> set (refs (bld h this)) \<Longrightarrow> cells (mutate h this m) a = cells h a"
proof -
  have e: "b_eagerLoad (bld h this) \<noteq> this" using assms by (auto simp: refs_def)
  note w = with_relations_frame [OF e]
  show "next_addr (mutate h this m) = next_addr h"
    using w by (cases m) (simp_all add: update_cell_simps upd_simps Builder_limit_def
        Builder_offset_def Builder_from_def)
  show "refs (bld (mutate h this m) this) = refs (bld h this)"
    using w assms by (cases m) (auto simp: bld_update_cell upd_simps Builder_limit_def
        Builder_offset_def Builder_from_def refs_def)
  show "\<And>a. a \<noteq> this \<Longrightarrow> a \<notin> set (refs (bld h this)) \<Longrightarrow> cells (mutate h this m) a = cells h a"
    using w by (cases m) (auto simp: update_cell_simps upd_simps Builder_limit_def
        Builder_offset_def Builder_from_def refs_def)
qed

lemma mutate_all_frame:
  assumes "this \<notin> set (refs (bld h this))"
  shows "next_addr (mutate_all h this ms) = next_addr h
    \<and> refs (bld (mutate_all h this ms) this) = refs (bld h this)
    \<and> (\<forall>a. a \<noteq> this \<longrightarrow> a \<notin> set (refs (bld h this)) \<longrightarrow> cells (mutate_all h this ms) a = cells h a)"
  using assms
proof (induction ms arbitrary: h)
  case Nil
  show ?case by (simp add: mutate_all_def)
next
  case (Cons m ms)
  note f = mutate_frame [OF Cons.prems, where m=m]
  have "this \<notin> set (refs (bld (mutate h this m) this))" using f(2) Cons.prems by simp
  from Cons.IH [OF this] show ?case
    using f by (simp add: mutate_all_def)
qed

lemma untouched_builder:
  assumes "this \<notin> set (refs (bld h this))" and "other \<noteq> this"
    and "other \<notin> set (refs (bld h this))"
    and "set (refs (bld h other)) \<inter> set (refs (bld h this)) = {}"
    and "this \<notin> set (refs (bld h other))"
  shows "snapshot (mutate_all h this ms) other = snapshot h other"
    and "eagerLoads (mutate_all h this ms) other = eagerLoads h other"
proof -
  note f = mutate_all_frame [OF assms(1), where ms=ms]
  have c1: "cells (mutate_all h this ms) other = cells h other" using f assms(2,3) by simp
  have c2: "\<And>a. a \<in> set (refs (bld h other)) \<Longrightarrow> cells (mutate_all h this ms) a = cells h a"
    using f assms(4,5) by auto
  show "snapshot (mutate_all h this ms) other = snapshot h other"
    using same_cells_same_builder(2) [OF c1 c2] .
  show "eagerLoads (mutate_all h this ms) other = eagerLoads h other"
    using same_cells_same_builder(3) [OF c1 c2] .
qed

lemma add_where_appends:
  assumes "this \<notin> set (refs (bld h this))"
  shows "q_wheres (snapshot (mutate_all h this [AddWhere w]) this) = q_wheres (snapshot h this) @ [w]"
  using assms
  by (auto simp: mutate_all_def snapshot_def bld_update_cell update_cell_simps refs_def)

text \<open>
  Claim C4. The clone of a well-formed builder is another builder with the same query
  and eager-load registrations, and after any sequence of the fluent mutations on the
  original (appending a column, a where, join, order, group or having clause, a binding
  or eager-load registrations, setting limit, offset, table or the distinct flag) the
  clone's clause sequences, bindings, scalars and registrations are what they were; and
  after any such sequence on the clone, the original's are.
\<close>

theorem clone_shares_nothing:
  assumes "allocated h this" and "clone h this = (c, h1)"
  shows "c \<noteq> this
    \<and> snapshot h1 c = snapshot h this \<and> eagerLoads h1 c = eagerLoads h this
    \<and> snapshot (mutate_all h1 this ms) c = snapshot h1 c
    \<and> eagerLoads (mutate_all h1 this ms) c = eagerLoads h1 c
    \<and> snapshot (mutate_all h1 c ms) this = snapshot h this
    \<and> eagerLoads (mutate_all h1 c ms) this = eagerLoads h this"
proof -
  note f = clone_facts [OF assms]
  note k = clone_keeps_original [OF assms]
  have lt: "this < next_addr h" using allocated_below(1) [OF assms(1)] .
  have rl: "\<And>a. a \<in> set (refs (bld h this)) \<Longrightarrow> a < next_addr h"
    using allocated_below(2) [OF assms(1)] .
  have ne: "c \<noteq> this" using f(1) lt by simp
  have t1: "this \<notin> set (refs (bld h1 this))" using allocated_below(3) [OF k(4)] .
  have c1: "c \<notin> set (refs (bld h1 c))" using allocated_below(3) [OF k(5)] .
  have rc: "set (refs (bld h1 c)) = {next_addr h + 9, next_addr h + 10, next_addr h + 11,
      next_addr h + 12, next_addr h + 13, next_addr h + 14, next_addr h + 15, next_addr h + 16}"
    using f(8) by simp
  have d1: "c \<notin> set (refs (bld h1 this))" using rl f(1) k(1) by auto
  have d2: "this \<notin> set (refs (bld h1 c))" using rc lt by simp
  have d3: "set (refs (bld h1 c)) \<inter> set (refs (bld h1 this)) = {}"
    using rl rc k(1) by fastforce
  have d4: "set (refs (bld h1 this)) \<inter> set (refs (bld h1 c)) = {}" using d3 by blast
  note u1 = untouched_builder [OF t1 ne d1 d3 d2, where ms=ms]
  note u2 = untouched_builder [OF c1 ne [symmetric] d2 d4 d1, where ms=ms]
  show ?thesis using ne f(4,5) u1 u2 k(2,3) by simp
qed

theorem clone_shares_nothing_witness:
  "allocated users_heap users_builder
   \<and> fst (clone users_heap users_builder) \<noteq> users_builder
   \<and> q_wheres (snapshot (mutate_all (snd (clone users_heap users_builder)) users_builder
        [AddWhere (WhereClause ''age'' ''>'' (Number (Fin 18)) LinkAnd)]) users_builder)
       = [WhereClause ''age'' ''>'' (Number (Fin 18)) LinkAnd]
   \<and> q_wheres (snapshot (mutate_all (snd (clone users_heap users_builder)) users_builder
        [AddWhere (WhereClause ''age'' ''>'' (Number (Fin 18)) LinkAnd)])
          (fst (clone users_heap users_builder))) = []
   \<and> q_wheres (snapshot (mutate_all (snd (clone users_heap users_builder))
        (fst (clone users_heap users_builder))
        [AddWhere (WhereClause ''age'' ''>'' (Number (Fin 18)) LinkAnd)])
          (fst (clone users_heap users_builder)))
       = [WhereClause ''age'' ''>'' (Number (Fin 18)) LinkAnd]
   \<and> q_wheres (snapshot (mutate_all (snd (clone users_heap users_builder))
        (fst (clone users_heap users_builder))
        [AddWhere (WhereClause ''age'' ''>'' (Number (Fin 18)) LinkAnd)]) users_builder) = []"
proof -
  let ?c = "fst (clone users_heap users_builder)"
  let ?h1 = "snd (clone users_heap users_builder)"
  let ?ms = "[AddWhere (WhereClause ''age'' ''>'' (Number (Fin 18)) LinkAnd)]"
  have cl: "clone users_heap users_builder = (?c, ?h1)" by simp
  note t = clone_shares_nothing [OF users_builder_allocated cl, of ?ms]
  note k = clone_keeps_original [OF users_builder_allocated cl]
  have w0: "q_wheres (snapshot users_heap users_builder) = []"
    by (simp add: users_builder_snapshot)
  have o: "q_wheres (snapshot (mutate_all ?h1 users_builder ?ms) users_builder)
      = [WhereClause ''age'' ''>'' (Number (Fin 18)) LinkAnd]"
    using add_where_appends [OF allocated_below(3) [OF k(4)], of "WhereClause ''age'' ''>'' (Number (Fin 18)) LinkAnd"]
      k(2) w0 by simp
  have c: "q_wheres (snapshot (mutate_all ?h1 ?c ?ms) ?c)
      = [WhereClause ''age'' ''>'' (Number (Fin 18)) LinkAnd]"
    using add_where_appends [OF allocated_below(3) [OF k(5)], of "WhereClause ''age'' ''>'' (Number (Fin 18)) LinkAnd"]
      t w0 by simp
  show ?thesis using t o c w0 users_builder_allocated by simp
qed

section \<open>Connections that cannot be created\<close>

text \<open>
  Claim C9. When the name is not a key of the configured connections, or the adapter its
  configuration names has no registered factory, \<open>createConnection\<close> throws (a
  configuration error: the connection is not configured, or the adapter is not
  registered) before any factory is called; and \<open>connection\<close>, for a name that is not
  cached, fails with the same error, calls no factory and leaves the manager as it was:
  nothing is cached and nothing is tried again.
\<close>

theorem connection_fails_fast:
  assumes "map_of (config_connections this) name = None
     \<or> (\<exists>config. map_of (config_connections this) name = Some config
           \<and> map_of (adapterFactories this) (cfg_adapter config) = None)"
  shows "isl (fst (createConnection this name)) \<and> snd (createConnection this name) = []
    \<and> (map_of (config_connections this) name = None \<and> name \<notin> set Object_prototype_members \<longrightarrow>
          fst (createConnection this name) = Inl (ConnectionNotConfigured name))
    \<and> (\<forall>config. map_of (config_connections this) name = Some config \<longrightarrow>
          fst (createConnection this name) = Inl (AdapterNotRegistered (cfg_adapter config)))
    \<and> (map_of (connections this) name = None \<and> name \<noteq> [] \<longrightarrow>
          connection this (Some name) = (fst (createConnection this name), this, []))
    \<and> (map_of (connections this) name = None \<and> name = config_default this \<longrightarrow>
          connection this None = (fst (createConnection this name), this, []))"
proof -
  have c: "isl (fst (createConnection this name)) \<and> snd (createConnection this name) = []"
    using assms
    by (auto simp: createConnection_def read_connections_def split: option.splits)
  have n: "map_of (config_connections this) name = None \<and> name \<notin> set Object_prototype_members \<longrightarrow>
          fst (createConnection this name) = Inl (ConnectionNotConfigured name)"
    by (simp add: createConnection_def read_connections_def)
  have a: "\<forall>config. map_of (config_connections this) name = Some config \<longrightarrow>
          fst (createConnection this name) = Inl (AdapterNotRegistered (cfg_adapter config))"
    using assms by (auto simp: createConnection_def read_connections_def)
  obtain e where e: "createConnection this name = (Inl e, [])"
    using c by (cases "createConnection this name") (auto simp: isl_def)
  have s: "map_of (connections this) name = None \<and> name \<noteq> [] \<longrightarrow>
          connection this (Some name) = (fst (createConnection this name), this, [])"
    using e by (simp add: connection_def)
  have d: "map_of (connections this) name = None \<and> name = config_default this \<longrightarrow>
          connection this None = (fst (createConnection this name), this, [])"
    using e by (auto simp: connection_def)
  show ?thesis using c n a s d by blast
qed

theorem connection_fails_fast_witness:
  "map_of (config_connections unregistered_manager) ''reports'' = None
   \<and> connection unregistered_manager (Some ''reports'')
       = (Inl (ConnectionNotConfigured ''reports''), unregistered_manager, [])
   \<and> map_of (adapterFactories unregistered_manager) ''drizzle'' = None
   \<and> connection unregistered_manager (Some ''main'')
       = (Inl (AdapterNotRegistered ''drizzle''), unregistered_manager, [])
   \<and> connection unregistered_manager None
       = (Inl (AdapterNotRegistered ''drizzle''), unregistered_manager, [])"
proof -
  have h1: "map_of (config_connections unregistered_manager) ''reports'' = None
     \<or> (\<exists>config. map_of (config_connections unregistered_manager) ''reports'' = Some config
           \<and> map_of (adapterFactories unregistered_manager) (cfg_adapter config) = None)"
    by (simp add: unregistered_manager_def)
  have h2: "map_of (config_connections unregistered_manager) ''main'' = None
     \<or> (\<exists>config. map_of (config_connections unregistered_manager) ''main'' = Some config
           \<and> map_of (adapterFactories unregistered_manager) (cfg_adapter config) = None)"
    by (simp add: unregistered_manager_def)
  note t1 = connection_fails_fast [OF h1]
  note t2 = connection_fails_fast [OF h2]
  have m: "map_of (config_connections unregistered_manager) ''main''
      = Some \<lparr>cfg_adapter = ''drizzle'', cfg_driver = ''sqlite'', cfg_database = ''app.db''\<rparr>"
    "map_of (config_connections unregistered_manager) ''reports'' = None"
    "map_of (connections unregistered_manager) ''main'' = None"
    "map_of (connections unregistered_manager) ''reports'' = None"
    "config_default unregistered_manager = ''main''"
    "''reports'' \<notin> set Object_prototype_members"
    "map_of (adapterFactories unregistered_manager) ''drizzle'' = None"
    by (simp_all add: unregistered_manager_def Object_prototype_members_def)
  have r1: "fst (createConnection unregistered_manager ''reports'') = Inl (ConnectionNotConfigured ''reports'')"
    using t1 m by blast
  have r2: "fst (createConnection unregistered_manager ''main'') = Inl (AdapterNotRegistered ''drizzle'')"
    using t2 m by simp
  have c1: "connection unregistered_manager (Some ''reports'') = (fst (createConnection unregistered_manager ''reports''), unregistered_manager, [])"
    using t1 m by simp
  have c2: "connection unregistered_manager (Some ''main'') = (fst (createConnection unregistered_manager ''main''), unregistered_manager, [])"
    using t2 m by simp
  have c3: "connection unregistered_manager None = (fst (createConnection unregistered_manager ''main''), unregistered_manager, [])"
    using t2 m by simp
  show ?thesis using r1 r2 c1 c2 c3 m by simp
qed

section \<open>Hydration\<close>










section \<open>Sorting a collection\<close>

lemma mset_sort_insert: "mset (sort_insert cmp x ys) = add_mset x (mset ys)"
  by (induction ys) auto

lemma set_sort_insert: "set (sort_insert cmp x ys) = insert x (set ys)"
  by (induction ys) auto

lemma Array_sort_Cons: "Array_sort cmp (x # xs) = sort_insert cmp x (Array_sort cmp xs)"
  by (simp add: Array_sort_def)

lemma mset_Array_sort: "mset (Array_sort cmp xs) = mset xs"
  by (induction xs) (simp_all add: Array_sort_Cons mset_sort_insert, simp add: Array_sort_def)

lemma set_Array_sort: "set (Array_sort cmp xs) = set xs"
  using mset_Array_sort [of cmp xs] by (metis set_mset_mset)

lemma consistent_onD:
  assumes "consistent_on S cmp"
  shows "\<And>a b. a \<in> S \<Longrightarrow> b \<in> S \<Longrightarrow> (cmp a b < 0) = (0 < cmp b a)"
    and "\<And>a b c. a \<in> S \<Longrightarrow> b \<in> S \<Longrightarrow> c \<in> S \<Longrightarrow> cmp a b \<le> 0 \<Longrightarrow> cmp b c \<le> 0 \<Longrightarrow> cmp a c \<le> 0"
  using assms unfolding consistent_on_def by blast+

lemma sorted_sort_insert:
  assumes "consistent_on S cmp" and "x \<in> S" and "set ys \<subseteq> S"
    and "sorted_wrt (\<lambda>a b. cmp a b \<le> 0) ys"
  shows "sorted_wrt (\<lambda>a b. cmp a b \<le> 0) (sort_insert cmp x ys)"
  using assms(3,4)
proof (induction ys)
  case Nil
  show ?case by simp
next
  case (Cons y ys)
  show ?case
  proof (cases "cmp x y \<le> 0")
    case True
    have "cmp x z \<le> 0" if "z \<in> set ys" for z
      using consistent_onD(2) [OF assms(1), of x y z] assms(2) Cons.prems that True by auto
    then show ?thesis using True Cons.prems by auto
  next
    case False
    then have "cmp y x < 0"
      using consistent_onD(1) [OF assms(1), of y x] assms(2) Cons.prems by auto
    then have "cmp y z \<le> 0" if "z \<in> set (sort_insert cmp x ys)" for z
      using that Cons.prems by (auto simp: set_sort_insert)
    then show ?thesis using False Cons by auto
  qed
qed

lemma sorted_Array_sort:
  assumes "consistent_on S cmp" and "set xs \<subseteq> S"
  shows "sorted_wrt (\<lambda>a b. cmp a b \<le> 0) (Array_sort cmp xs)"
  using assms(2)
proof (induction xs)
  case Nil
  show ?case by (simp add: Array_sort_def)
next
  case (Cons x xs)
  then show ?case
    using sorted_sort_insert [OF assms(1), of x "Array_sort cmp xs"]
    by (simp add: Array_sort_Cons set_Array_sort)
qed

text \<open>An item never passes an item of its own class: the class keeps its order.\<close>

lemma filter_sort_insert:
  assumes "\<And>y. y \<in> set ys \<Longrightarrow> P x \<Longrightarrow> P y \<Longrightarrow> cmp x y \<le> 0"
  shows "filter P (sort_insert cmp x ys) = (if P x then x # filter P ys else filter P ys)"
  using assms by (induction ys) auto

lemma filter_Array_sort:
  assumes "\<And>x y. x \<in> set xs \<Longrightarrow> y \<in> set xs \<Longrightarrow> P x \<Longrightarrow> P y \<Longrightarrow> cmp x y \<le> 0"
  shows "filter P (Array_sort cmp xs) = filter P xs"
  using assms
proof (induction xs)
  case Nil
  show ?case by (simp add: Array_sort_def)
next
  case (Cons x xs)
  have "filter P (sort_insert cmp x (Array_sort cmp xs))
      = (if P x then x # filter P (Array_sort cmp xs) else filter P (Array_sort cmp xs))"
    by (rule filter_sort_insert) (use Cons.prems in \<open>auto simp: set_Array_sort\<close>)
  then show ?case using Cons by (simp add: Array_sort_Cons)
qed

lemma stable_on_class:
  assumes "consistent_on (set xs) cmp" and "a \<in> set xs"
  shows "filter (\<lambda>x. cmp x a = 0) (Array_sort cmp xs) = filter (\<lambda>x. cmp x a = 0) xs"
proof (rule filter_Array_sort)
  fix x y assume x: "x \<in> set xs" and y: "y \<in> set xs" and "cmp x a = 0" and ya: "cmp y a = 0"
  then have "cmp x a \<le> 0" by simp
  moreover have "cmp a y \<le> 0"
    using consistent_onD(1) [OF assms(1), of y a] ya assms(2) y by auto
  ultimately show "cmp x y \<le> 0"
    using consistent_onD(2) [OF assms(1), of x a y] x y assms(2) by blast
qed

subsection \<open>The comparators that sortBy builds from a key\<close>

lemma num_lt_irrefl: "\<not> num_lt a a"
  by (cases a) auto

lemma str_lt_irrefl: "\<not> str_lt s s"
  by (induction s) auto

lemma str_lt_trans: "str_lt a b \<Longrightarrow> str_lt b c \<Longrightarrow> str_lt a c"
proof (induction a arbitrary: b c)
  case Nil
  then show ?case by (cases b; cases c) simp_all
next
  case (Cons x s)
  from Cons.prems obtain y t where b: "b = y # t" by (cases b) simp_all
  from Cons.prems b obtain z u where c: "c = z # u" by (cases c) simp_all
  show ?case using Cons.prems Cons.IH [of t u] unfolding b c by auto
qed

lemma of_char_nat_inj: "(of_char c :: nat) = of_char d \<Longrightarrow> c = d"
  by (metis char_of_char)

lemma str_lt_total: "str_lt a b \<or> a = b \<or> str_lt b a"
proof (induction a arbitrary: b)
  case Nil
  show ?case by (cases b) simp_all
next
  case (Cons x s)
  show ?case
  proof (cases b)
    case Nil
    then show ?thesis by simp
  next
    case (Cons y t)
    have "(of_char x :: nat) < of_char y \<or> x = y \<or> (of_char y :: nat) < of_char x"
      using of_char_nat_inj [of x y] by linarith
    then show ?thesis using Cons Cons.IH [of t] by auto
  qed
qed

lemma js_lt_irrefl: "\<not> js_lt v v"
  by (cases v) (auto simp: js_lt_def num_lt_irrefl str_lt_irrefl)

lemma compare_key_equal_values:
  assumes "read x k = read y k"
  shows "compare_key read k x y = 0" and "compare_key_desc read k x y = 0"
  using assms by (simp_all add: compare_key_def compare_key_desc_def Let_def js_lt_irrefl)

lemma consistent_from_order:
  assumes "\<And>a b. a \<in> S \<Longrightarrow> b \<in> S \<Longrightarrow> (cmp a b < 0) = lt (key a) (key b)"
    and "\<And>a b. a \<in> S \<Longrightarrow> b \<in> S \<Longrightarrow> (0 < cmp a b) = lt (key b) (key a)"
    and "\<And>u. \<not> lt u u" and "\<And>u v w. lt u v \<Longrightarrow> lt v w \<Longrightarrow> lt u w"
    and "\<And>u v. lt u v \<or> u = v \<or> lt v u"
  shows "consistent_on S cmp"
  unfolding consistent_on_def
proof (intro conjI ballI impI)
  fix a b assume "a \<in> S" "b \<in> S"
  then show "(cmp a b < 0) = (0 < cmp b a)" using assms(1,2) by simp
next
  fix a b c assume S: "a \<in> S" "b \<in> S" "c \<in> S" and ab: "cmp a b \<le> 0" and bc: "cmp b c \<le> 0"
  have 1: "\<not> lt (key b) (key a)" using assms(2) [of a b] S ab by simp
  have 2: "\<not> lt (key c) (key b)" using assms(2) [of b c] S bc by simp
  have "\<not> lt (key c) (key a)"
  proof
    assume ca: "lt (key c) (key a)"
    from assms(5) [of "key a" "key b"] 1 consider "lt (key a) (key b)" | "key a = key b" by blast
    then have "lt (key c) (key b)"
    proof cases
      case 1
      then show ?thesis using ca assms(4) by blast
    next
      case 2
      then show ?thesis using ca by simp
    qed
    then show False using 2 by simp
  qed
  then show "cmp a c \<le> 0" using assms(2) [of a c] S by simp
qed

lemma comparable_keys_consistent:
  assumes "comparable_keys read k xs"
  shows "consistent_on (set xs) (compare_key read k)" and "consistent_on (set xs) (compare_key_desc read k)"
proof -
  from assms consider
    (numbers) "\<forall>x\<in>set xs. is_finite_number (read x k)"
    | (strings) "\<forall>x\<in>set xs. is_string (read x k)"
    by (auto simp: comparable_keys_def list_all_iff)
  then have "consistent_on (set xs) (compare_key read k) \<and> consistent_on (set xs) (compare_key_desc read k)"
  proof cases
    case numbers
    have lt: "js_lt (read a k) (read b k) = (numeric_or_zero (read a k) < numeric_or_zero (read b k))"
      if "a \<in> set xs" "b \<in> set xs" for a b
      using numbers that
      by (auto simp: is_finite_number_def js_lt_def ToNumber_def numeric_or_zero_def
          split: jsval.splits jsnum.splits)
    have "consistent_on (set xs) (compare_key read k)"
      by (rule consistent_from_order [where lt="(<)" and key="\<lambda>x. numeric_or_zero (read x k)"])
        (auto simp: compare_key_def Let_def lt)
    moreover have "consistent_on (set xs) (compare_key_desc read k)"
      by (rule consistent_from_order [where lt="(>)" and key="\<lambda>x. numeric_or_zero (read x k)"])
        (auto simp: compare_key_desc_def Let_def lt)
    ultimately show ?thesis by simp
  next
    case strings
    define key where "key = (\<lambda>x. case read x k of Str s \<Rightarrow> s | _ \<Rightarrow> [])"
    have lt: "js_lt (read a k) (read b k) = str_lt (key a) (key b)"
      if "a \<in> set xs" "b \<in> set xs" for a b
      using strings that
      by (auto simp: is_string_def js_lt_def key_def split: jsval.splits)
    have asym: "str_lt u v \<Longrightarrow> \<not> str_lt v u" for u v
      using str_lt_trans [of u v u] str_lt_irrefl by blast
    have irr: "\<And>u. \<not> str_lt u u" by (rule str_lt_irrefl)
    have tr: "\<And>u v w. str_lt u v \<Longrightarrow> str_lt v w \<Longrightarrow> str_lt u w" by (rule str_lt_trans)
    have tot: "\<And>u v. str_lt u v \<or> u = v \<or> str_lt v u" by (rule str_lt_total)
    have irr': "\<And>u. \<not> (\<lambda>u v. str_lt v u) u u" by (simp add: str_lt_irrefl)
    have tr': "\<And>u v w. (\<lambda>u v. str_lt v u) u v \<Longrightarrow> (\<lambda>u v. str_lt v u) v w \<Longrightarrow> (\<lambda>u v. str_lt v u) u w"
      using str_lt_trans by blast
    have tot': "\<And>u v. (\<lambda>u v. str_lt v u) u v \<or> u = v \<or> (\<lambda>u v. str_lt v u) v u"
      using str_lt_total by blast
    have a1: "\<And>a b. a \<in> set xs \<Longrightarrow> b \<in> set xs \<Longrightarrow> (compare_key read k a b < 0) = str_lt (key a) (key b)"
      using asym by (auto simp: compare_key_def Let_def lt)
    have a2: "\<And>a b. a \<in> set xs \<Longrightarrow> b \<in> set xs \<Longrightarrow> (0 < compare_key read k a b) = str_lt (key b) (key a)"
      using asym by (auto simp: compare_key_def Let_def lt)
    have d1: "\<And>a b. a \<in> set xs \<Longrightarrow> b \<in> set xs \<Longrightarrow>
        (compare_key_desc read k a b < 0) = (\<lambda>u v. str_lt v u) (key a) (key b)"
      using asym by (auto simp: compare_key_desc_def Let_def lt)
    have d2: "\<And>a b. a \<in> set xs \<Longrightarrow> b \<in> set xs \<Longrightarrow>
        (0 < compare_key_desc read k a b) = (\<lambda>u v. str_lt v u) (key b) (key a)"
      using asym by (auto simp: compare_key_desc_def Let_def lt)
    have "consistent_on (set xs) (compare_key read k)"
      by (rule consistent_from_order [where lt=str_lt and key=key, OF a1 a2 irr tr tot])
    moreover have "consistent_on (set xs) (compare_key_desc read k)"
      by (rule consistent_from_order [where lt="\<lambda>u v. str_lt v u" and key=key, OF d1 d2 irr' tr' tot'])
    ultimately show ?thesis by simp
  qed
  then show "consistent_on (set xs) (compare_key read k)" and "consistent_on (set xs) (compare_key_desc read k)"
    by simp_all
qed

text \<open>
  Claim C6, as amended. When the comparator is consistent on the items of the
  collection, \<open>sortBy\<close> (with a key or with a comparator of the caller) and
  \<open>sortByDesc\<close> return a permutation of the collection that is sorted by the
  comparator, and the items of equal sort key are in their input order. The comparator
  built from a key is consistent when the values under the key are all finite numbers or
  all strings; the result is then ascending for \<open>sortBy\<close> and descending for
  \<open>sortByDesc\<close> in the order \<open><\<close> of the values.
\<close>

theorem sortBy_stable:
  "(consistent_on (set this) (compare_key read k) \<longrightarrow>
      mset (sortBy read this (Key k)) = mset this
      \<and> sorted_wrt (\<lambda>a b. compare_key read k a b \<le> 0) (sortBy read this (Key k))
      \<and> (\<forall>v. filter (\<lambda>x. read x k = v) (sortBy read this (Key k)) = filter (\<lambda>x. read x k = v) this))
   \<and> (consistent_on (set this) (compare_key_desc read k) \<longrightarrow>
      mset (sortByDesc read this k) = mset this
      \<and> sorted_wrt (\<lambda>a b. compare_key_desc read k a b \<le> 0) (sortByDesc read this k)
      \<and> (\<forall>v. filter (\<lambda>x. read x k = v) (sortByDesc read this k) = filter (\<lambda>x. read x k = v) this))
   \<and> (consistent_on (set this) cmp \<longrightarrow>
      mset (sortBy read this (Callback cmp)) = mset this
      \<and> sorted_wrt (\<lambda>a b. cmp a b \<le> 0) (sortBy read this (Callback cmp))
      \<and> (\<forall>a\<in>set this. filter (\<lambda>x. cmp x a = 0) (sortBy read this (Callback cmp)) = filter (\<lambda>x. cmp x a = 0) this))
   \<and> (comparable_keys read k this \<longrightarrow>
      consistent_on (set this) (compare_key read k) \<and> consistent_on (set this) (compare_key_desc read k)
      \<and> sorted_wrt (\<lambda>a b. \<not> js_lt (read b k) (read a k)) (sortBy read this (Key k))
      \<and> sorted_wrt (\<lambda>a b. \<not> js_lt (read a k) (read b k)) (sortByDesc read this k))"
proof -
  have asc: "mset (sortBy read this (Key k)) = mset this
      \<and> sorted_wrt (\<lambda>a b. compare_key read k a b \<le> 0) (sortBy read this (Key k))
      \<and> (\<forall>v. filter (\<lambda>x. read x k = v) (sortBy read this (Key k)) = filter (\<lambda>x. read x k = v) this)"
    if c: "consistent_on (set this) (compare_key read k)"
  proof -
    have "filter (\<lambda>x. read x k = v) (Array_sort (compare_key read k) this) = filter (\<lambda>x. read x k = v) this" for v
      by (rule filter_Array_sort) (simp add: compare_key_equal_values)
    then show ?thesis
      using sorted_Array_sort [OF c order_refl] by (simp add: sortBy_def mset_Array_sort)
  qed
  have desc: "mset (sortByDesc read this k) = mset this
      \<and> sorted_wrt (\<lambda>a b. compare_key_desc read k a b \<le> 0) (sortByDesc read this k)
      \<and> (\<forall>v. filter (\<lambda>x. read x k = v) (sortByDesc read this k) = filter (\<lambda>x. read x k = v) this)"
    if c: "consistent_on (set this) (compare_key_desc read k)"
  proof -
    have "filter (\<lambda>x. read x k = v) (Array_sort (compare_key_desc read k) this) = filter (\<lambda>x. read x k = v) this" for v
      by (rule filter_Array_sort) (simp add: compare_key_equal_values)
    then show ?thesis
      using sorted_Array_sort [OF c order_refl] by (simp add: sortByDesc_def sortBy_def mset_Array_sort)
  qed
  have cb: "mset (sortBy read this (Callback cmp)) = mset this
      \<and> sorted_wrt (\<lambda>a b. cmp a b \<le> 0) (sortBy read this (Callback cmp))
      \<and> (\<forall>a\<in>set this. filter (\<lambda>x. cmp x a = 0) (sortBy read this (Callback cmp)) = filter (\<lambda>x. cmp x a = 0) this)"
    if c: "consistent_on (set this) cmp"
    using sorted_Array_sort [OF c order_refl] stable_on_class [OF c]
    by (simp add: sortBy_def mset_Array_sort)
  have keys: "consistent_on (set this) (compare_key read k) \<and> consistent_on (set this) (compare_key_desc read k)
      \<and> sorted_wrt (\<lambda>a b. \<not> js_lt (read b k) (read a k)) (sortBy read this (Key k))
      \<and> sorted_wrt (\<lambda>a b. \<not> js_lt (read a k) (read b k)) (sortByDesc read this k)"
    if ck: "comparable_keys read k this"
  proof -
    note c = comparable_keys_consistent [OF ck]
    have s1: "sorted_wrt (\<lambda>a b. compare_key read k a b \<le> 0) (sortBy read this (Key k))"
      using asc [OF c(1)] by simp
    have s2: "sorted_wrt (\<lambda>a b. compare_key_desc read k a b \<le> 0) (sortByDesc read this k)"
      using desc [OF c(2)] by simp
    have i1: "compare_key read k a b \<le> 0 \<Longrightarrow> \<not> js_lt (read b k) (read a k)"
      if "a \<in> set this" "b \<in> set this" for a b
      using consistent_onD(1) [OF c(1), of a b] that
      by (auto simp: compare_key_def Let_def split: if_splits)
    have i2: "compare_key_desc read k a b \<le> 0 \<Longrightarrow> \<not> js_lt (read a k) (read b k)"
      if "a \<in> set this" "b \<in> set this" for a b
      using consistent_onD(1) [OF c(2), of a b] that
      by (auto simp: compare_key_desc_def Let_def split: if_splits)
    have m1: "set (sortBy read this (Key k)) = set this" by (simp add: sortBy_def set_Array_sort)
    have m2: "set (sortByDesc read this k) = set this" by (simp add: sortByDesc_def sortBy_def set_Array_sort)
    have "sorted_wrt (\<lambda>a b. \<not> js_lt (read b k) (read a k)) (sortBy read this (Key k))"
      by (rule sorted_wrt_mono_rel [OF _ s1]) (simp add: m1 i1)
    moreover have "sorted_wrt (\<lambda>a b. \<not> js_lt (read a k) (read b k)) (sortByDesc read this k)"
      by (rule sorted_wrt_mono_rel [OF _ s2]) (simp add: m2 i2)
    ultimately show ?thesis using c by simp
  qed
  show ?thesis using asc desc cb keys by blast
qed

theorem sortBy_stable_witness:
  "comparable_keys getProp ''n''
     [product [(''n'', Number (Fin 2)), (''t'', Str ''a'')],
      product [(''n'', Number (Fin 1)), (''t'', Str ''b'')],
      product [(''n'', Number (Fin 2)), (''t'', Str ''c'')],
      product [(''n'', Number (Fin 1)), (''t'', Str ''d'')]]
   \<and> consistent_on (set
     [product [(''n'', Number (Fin 2)), (''t'', Str ''a'')],
      product [(''n'', Number (Fin 1)), (''t'', Str ''b'')],
      product [(''n'', Number (Fin 2)), (''t'', Str ''c'')],
      product [(''n'', Number (Fin 1)), (''t'', Str ''d'')]]) (compare_key getProp ''n'')
   \<and> consistent_on (set
     [product [(''n'', Number (Fin 2)), (''t'', Str ''a'')],
      product [(''n'', Number (Fin 1)), (''t'', Str ''b'')],
      product [(''n'', Number (Fin 2)), (''t'', Str ''c'')],
      product [(''n'', Number (Fin 1)), (''t'', Str ''d'')]]) (compare_key_desc getProp ''n'')
   \<and> map (\<lambda>x. getProp x ''t'') (sortBy getProp
     [product [(''n'', Number (Fin 2)), (''t'', Str ''a'')],
      product [(''n'', Number (Fin 1)), (''t'', Str ''b'')],
      product [(''n'', Number (Fin 2)), (''t'', Str ''c'')],
      product [(''n'', Number (Fin 1)), (''t'', Str ''d'')]] (Key ''n''))
       = [Str ''b'', Str ''d'', Str ''a'', Str ''c'']
   \<and> map (\<lambda>x. getProp x ''t'') (sortByDesc getProp
     [product [(''n'', Number (Fin 2)), (''t'', Str ''a'')],
      product [(''n'', Number (Fin 1)), (''t'', Str ''b'')],
      product [(''n'', Number (Fin 2)), (''t'', Str ''c'')],
      product [(''n'', Number (Fin 1)), (''t'', Str ''d'')]] ''n'')
       = [Str ''a'', Str ''c'', Str ''b'', Str ''d'']
   \<and> sorted_wrt (\<lambda>a b. \<not> js_lt (getProp b ''n'') (getProp a ''n'')) (sortBy getProp
     [product [(''n'', Number (Fin 2)), (''t'', Str ''a'')],
      product [(''n'', Number (Fin 1)), (''t'', Str ''b'')],
      product [(''n'', Number (Fin 2)), (''t'', Str ''c'')],
      product [(''n'', Number (Fin 1)), (''t'', Str ''d'')]] (Key ''n''))
   \<and> sorted_wrt (\<lambda>a b. \<not> js_lt (getProp a ''n'') (getProp b ''n'')) (sortByDesc getProp
     [product [(''n'', Number (Fin 2)), (''t'', Str ''a'')],
      product [(''n'', Number (Fin 1)), (''t'', Str ''b'')],
      product [(''n'', Number (Fin 2)), (''t'', Str ''c'')],
      product [(''n'', Number (Fin 1)), (''t'', Str ''d'')]] ''n'')
   \<and> sorted_wrt (\<lambda>a b. compare_key_desc getProp ''n'' a b \<le> 0) (sortBy getProp
     [product [(''n'', Number (Fin 2)), (''t'', Str ''a'')],
      product [(''n'', Number (Fin 1)), (''t'', Str ''b'')],
      product [(''n'', Number (Fin 2)), (''t'', Str ''c'')],
      product [(''n'', Number (Fin 1)), (''t'', Str ''d'')]] (Callback (compare_key_desc getProp ''n'')))
   \<and> filter (\<lambda>x. getProp x ''n'' = Number (Fin 2)) (sortBy getProp
     [product [(''n'', Number (Fin 2)), (''t'', Str ''a'')],
      product [(''n'', Number (Fin 1)), (''t'', Str ''b'')],
      product [(''n'', Number (Fin 2)), (''t'', Str ''c'')],
      product [(''n'', Number (Fin 1)), (''t'', Str ''d'')]] (Key ''n''))
     = [product [(''n'', Number (Fin 2)), (''t'', Str ''a'')], product [(''n'', Number (Fin 2)), (''t'', Str ''c'')]]"
proof -
  let ?xs = "[product [(''n'', Number (Fin 2)), (''t'', Str ''a'')],
      product [(''n'', Number (Fin 1)), (''t'', Str ''b'')],
      product [(''n'', Number (Fin 2)), (''t'', Str ''c'')],
      product [(''n'', Number (Fin 1)), (''t'', Str ''d'')]]"
  have ck: "comparable_keys getProp ''n'' ?xs"
    by (simp add: comparable_keys_def is_finite_number_def getProp_def product_def)
  note t = sortBy_stable [where read=getProp and this="?xs" and k="''n''" and cmp="compare_key_desc getProp ''n''"]
  have s: "sorted_wrt (\<lambda>a b. \<not> js_lt (getProp b ''n'') (getProp a ''n'')) (sortBy getProp ?xs (Key ''n''))"
    and s': "sorted_wrt (\<lambda>a b. \<not> js_lt (getProp a ''n'') (getProp b ''n'')) (sortByDesc getProp ?xs ''n'')"
    using t ck by blast+
  have c: "consistent_on (set ?xs) (compare_key getProp ''n'')"
    and c': "consistent_on (set ?xs) (compare_key_desc getProp ''n'')"
    using t ck by blast+
  have cb: "sorted_wrt (\<lambda>a b. compare_key_desc getProp ''n'' a b \<le> 0) (sortBy getProp ?xs (Callback (compare_key_desc getProp ''n'')))"
    using t c' by blast
  have f: "filter (\<lambda>x. getProp x ''n'' = Number (Fin 2)) (sortBy getProp ?xs (Key ''n''))
      = filter (\<lambda>x. getProp x ''n'' = Number (Fin 2)) ?xs"
    using t c by blast
  have f': "filter (\<lambda>x. getProp x ''n'' = Number (Fin 2)) ?xs
      = [product [(''n'', Number (Fin 2)), (''t'', Str ''a'')], product [(''n'', Number (Fin 2)), (''t'', Str ''c'')]]"
    by (simp add: getProp_def product_def)
  have e1: "map (\<lambda>x. getProp x ''t'') (sortBy getProp ?xs (Key ''n'')) = [Str ''b'', Str ''d'', Str ''a'', Str ''c'']"
    by (simp add: sortBy_def Array_sort_def compare_key_def js_lt_def ToNumber_def getProp_def product_def)
  have e2: "map (\<lambda>x. getProp x ''t'') (sortByDesc getProp ?xs ''n'') = [Str ''a'', Str ''c'', Str ''b'', Str ''d'']"
    by (simp add: sortByDesc_def sortBy_def Array_sort_def compare_key_desc_def js_lt_def ToNumber_def getProp_def product_def)
  show ?thesis using ck c c' s s' cb f f' e1 e2 by (simp only: simp_thms)
qed

text \<open>
  Three records with the keys 2, none and 1: \<open>undefined\<close> compares neither below nor
  above a number, the comparator returns 0 twice, and the sort leaves 2 before 1.
\<close>

theorem sortBy_missing_key_counterexample:
  "sortBy getProp [product [(''n'', Number (Fin 2))], product [(''id'', Number (Fin 7))], product [(''n'', Number (Fin 1))]] (Key ''n'')
     = [product [(''n'', Number (Fin 2))], product [(''id'', Number (Fin 7))], product [(''n'', Number (Fin 1))]]
   \<and> js_lt (getProp (product [(''n'', Number (Fin 1))]) ''n'') (getProp (product [(''n'', Number (Fin 2))]) ''n'')
   \<and> \<not> sorted_wrt (\<lambda>a b. \<not> js_lt (getProp b ''n'') (getProp a ''n''))
        (sortBy getProp [product [(''n'', Number (Fin 2))], product [(''id'', Number (Fin 7))], product [(''n'', Number (Fin 1))]] (Key ''n''))"
  by (simp add: sortBy_def Array_sort_def compare_key_def js_lt_def ToNumber_def getProp_def product_def)

section \<open>Bindings and placeholders\<close>

lemma binds_of_simps:
  "binds_of [] = []"
  "binds_of (Lit s # ps) = binds_of ps"
  "binds_of (Bind v # ps) = v # binds_of ps"
  "binds_of (a @ b) = binds_of a @ binds_of b"
  by (simp_all add: binds_of_def)

lemma binds_of_concat: "binds_of (concat xs) = concat (map binds_of xs)"
  by (induction xs) (simp_all add: binds_of_simps)

lemma clean_pieces_simps:
  "clean_pieces [] = True"
  "clean_pieces (Lit s # ps) = (clean s \<and> clean_pieces ps)"
  "clean_pieces (Bind v # ps) = clean_pieces ps"
  "clean_pieces (a @ b) = (clean_pieces a \<and> clean_pieces b)"
  by (simp_all add: clean_pieces_def)

lemma clean_pieces_concat: "clean_pieces (concat xs) = list_all clean_pieces xs"
  by (induction xs) (simp_all add: clean_pieces_simps)


lemma clean_pieces_separated:
  assumes "clean_pieces sep" and "list_all clean_pieces xs"
  shows "clean_pieces (separated sep xs)"
  using assms by (induction sep xs rule: separated.induct) (simp_all add: clean_pieces_simps)

lemma snd_emit: "snd (emit ps) = binds_of ps"
  by (induction ps rule: emit.induct) (simp_all add: binds_of_simps split_beta)




lemma written_simps:
  "written mark [] = []"
  "written mark (Placeholder # sql) = mark @ written mark sql"
  "written mark (map Ch s @ sql) = s @ written mark sql"
proof -
  show "written mark [] = []" "written mark (Placeholder # sql) = mark @ written mark sql"
    by (simp_all add: written_def)
  show "written mark (map Ch s @ sql) = s @ written mark sql"
    by (induction s) (simp_all add: written_def)
qed

lemma count_written:
  assumes "clean_pieces ps"
  shows "count_list (written ''?'' (fst (emit ps))) (CHR ''?'') = length (binds_of ps)"
  using assms
proof (induction ps rule: emit.induct)
  case 1
  show ?case by (simp add: binds_of_simps written_simps)
next
  case (2 s ps)
  have "count_list s (CHR ''?'') = 0" using "2.prems" by (simp add: clean_pieces_simps clean_def)
  then show ?case using 2 by (simp add: binds_of_simps clean_pieces_simps split_beta written_simps)
next
  case (3 v ps)
  then show ?case by (simp add: binds_of_simps clean_pieces_simps split_beta written_simps)
qed

lemma show_nat_clean: "clean (show_nat n)"
proof (induction n rule: show_nat.induct)
  case (1 n)
  have d: "char_of (48 + k) \<noteq> CHR ''?''" if "k < 10" for k :: nat
  proof
    assume "char_of (48 + k) = CHR ''?''"
    then have "(of_char (char_of (48 + k)) :: nat) = of_char (CHR ''?'')" by simp
    then show False using that by (simp add: of_char_of)
  qed
  show ?case
  proof (cases "n < 10")
    case True
    then show ?thesis using d [of n] by (subst show_nat.simps) (simp add: clean_def)
  next
    case False
    then show ?thesis
      using 1 d [of "n mod 10"] by (subst show_nat.simps) (simp add: clean_def)
  qed
qed

lemma show_int_clean: "clean (show_int i)"
  using show_nat_clean by (simp add: show_int_def clean_def)


lemma clean_pieces_compile:
  assumes "clean_query q"
  shows "clean_pieces (compile q)"
proof -
  have sp: "clean '', ''" "clean '' AND ''" by (simp_all add: clean_def)
  have s: "clean_pieces (compile_select q)"
    using assms
    by (auto simp: compile_select_def clean_pieces_simps clean_query_def clean_def list_all_iff
        intro!: clean_pieces_separated)
  have j1: "list_all (\<lambda>j. clean (jc_table j) \<and> clean (jc_first j)
                       \<and> (case jc_operator j of None \<Rightarrow> True | Some op \<Rightarrow> clean op)) js \<Longrightarrow>
      clean_pieces (concat (map compile_join js))" for js
    by (induction js)
      (auto simp: clean_pieces_simps compile_join_def clean_def join_keyword_def
        split: option.splits join_type.splits)
  have j: "clean_pieces (concat (map compile_join (q_joins q)))"
    using assms j1 by (simp add: clean_query_def)
  have w1: "list_all (\<lambda>w. clean (wc_column w) \<and> clean (wc_operator w)) ws \<Longrightarrow>
      clean_pieces (concat (map (\<lambda>w. Lit (connector w) # compile_where w) ws))" for ws
    by (induction ws)
      (auto simp: clean_pieces_simps compile_where_def connector_def clean_def
        split: connective.splits)
  have w0: "clean (wc_column x) \<and> clean (wc_operator x) \<Longrightarrow> clean_pieces (compile_where x)" for x
    by (simp add: compile_where_def clean_pieces_simps clean_def)
  have w: "clean_pieces (compile_wheres (q_wheres q))"
    using assms w1 w0
    by (cases "q_wheres q")
      (auto simp: compile_wheres_def clean_pieces_simps clean_query_def clean_def)
  have g: "clean_pieces (compile_groups (q_groups q))"
    using assms
    by (auto simp: compile_groups_def clean_pieces_simps clean_query_def clean_def list_all_iff
        intro!: clean_pieces_separated)
  have h: "clean_pieces (compile_havings (q_havings q))"
    using assms
    by (auto simp: compile_havings_def clean_pieces_simps clean_query_def clean_def list_all_iff
        compile_having_def intro!: clean_pieces_separated)
  have o: "clean_pieces (compile_orders (q_orders q))"
    using assms
    by (auto simp: compile_orders_def clean_pieces_simps clean_query_def clean_def list_all_iff
        compile_order_def intro!: clean_pieces_separated split: order_direction.splits)
  have b: "clean_pieces (compile_bounds q)"
    using show_int_clean
    by (auto simp: compile_bounds_def clean_pieces_simps clean_def split: option.splits)
  show ?thesis by (simp add: compile_def clean_pieces_simps s j w g h o b)
qed



lemma configure_clean:
  assumes "clean_query q" and "list_all clean_call cs"
  shows "clean_query (foldl configure q cs)"
  using assms
proof (induction cs arbitrary: q)
  case Nil
  then show ?case by simp
next
  case (Cons c cs)
  have "clean_query (configure q c)"
    using Cons.prems by (cases c) (simp_all add: clean_query_def clean_call_def)
  then show ?case using Cons by simp
qed



text \<open>
  The placeholder spelled as a question mark. When no name of the query or of the calls
  holds a question mark, the question marks of the written text are the placeholders.
  A name that holds one puts into the written text a question mark that is no
  placeholder of the compilation: the text then shows more question marks than there
  are bindings.
\<close>

lemma question_marks_are_placeholders:
  assumes "clean_query q" and "list_all clean_call cs"
  shows "count_list (written ''?'' (toSql (foldl configure q cs))) (CHR ''?'')
    = length (compiled_bindings (foldl configure q cs))"
  using count_written [OF clean_pieces_compile [OF configure_clean [OF assms]]]
  by (simp add: toSql_def compiled_bindings_def snd_emit)

lemma question_mark_in_a_name:
  "written ''?'' (toSql (foldl configure (new_query ''docs'') [CallWhere ''tags'' ''?'' (Str ''a'')]))
     = ''SELECT * FROM docs WHERE tags ? ?''
   \<and> count_list (toSql (foldl configure (new_query ''docs'') [CallWhere ''tags'' ''?'' (Str ''a'')])) Placeholder = 1
   \<and> compiled_bindings (foldl configure (new_query ''docs'') [CallWhere ''tags'' ''?'' (Str ''a'')]) = [Str ''a'']"
  by (simp add: toSql_def compiled_bindings_def compile_def new_query_def compile_select_def
      compile_wheres_def compile_where_def compile_groups_def compile_havings_def
      compile_orders_def compile_bounds_def written_def)

end
